theory Spec2Isabelle
  imports Main "HOL-Library.Sublist"
begin

section \<open>Strings\<close>

text \<open>
  A JavaScript string is a sequence of UTF-16 code units. \<open>js\<close> turns an ASCII literal
  into its code units. \<open>str_includes s sub\<close> is \<open>s.includes(sub)\<close>: \<open>sub\<close> occurs in
  \<open>s\<close> as a contiguous run of code units.
\<close>

type_synonym jsstring = "nat list"

definition js :: "string \<Rightarrow> jsstring" where
  "js s = map of_char s"

definition str_includes :: "jsstring \<Rightarrow> jsstring \<Rightarrow> bool" where
  "str_includes s sub = sublist sub s"

text \<open>The exceptions that the modelled code can raise.\<close>

datatype error = TypeError | IOError

section \<open>The cached config reader\<close>

text \<open>
  The fields of a \<open>CachedFileReader\<close>: the cached content (\<open>null\<close> at first), the
  flag \<open>_watching\<close>, and whether \<open>_watcher\<close> holds a watcher.
\<close>

record CachedFileReader =
  cachedValue :: "jsstring option"
  watching :: bool
  watcher :: bool

text \<open>
  What the reader sees and changes outside itself, for its one file: the content on disk
  (\<open>None\<close> when the file cannot be read), the number of times the file was read, and
  the number of change listeners registered with \<open>fs.watchFile\<close>.
\<close>

record disk =
  content :: "jsstring option"
  diskReads :: nat
  listeners :: nat

definition newReader :: CachedFileReader where
  "newReader = \<lparr>cachedValue = None, watching = False, watcher = False\<rparr>"

text \<open>\<open>_initWatcher\<close>. No method assigns \<open>_watching\<close>.\<close>

definition initWatcher :: "CachedFileReader \<Rightarrow> disk \<Rightarrow> CachedFileReader \<times> disk" where
  "initWatcher r d =
     (if watching r then (r, d)
      else (r\<lparr>watcher := True\<rparr>, d\<lparr>listeners := Suc (listeners d)\<rparr>))"

text \<open>
  \<open>read\<close>, taken as one step (the model does not interleave anything with the
  \<open>await\<close>). The test \<open>if (this._cachedValue)\<close> is one of truthiness: only a
  cached string that is not empty passes it.
\<close>

definition read ::
  "CachedFileReader \<Rightarrow> disk \<Rightarrow> (error + jsstring) \<times> CachedFileReader \<times> disk" where
  "read r d =
     (case cachedValue r of
        Some (c # cs) \<Rightarrow> (Inr (c # cs), r, d)
      | _ \<Rightarrow>
        (case initWatcher r d of (r1, d1) \<Rightarrow>
          (let d2 = d1\<lparr>diskReads := Suc (diskReads d1)\<rparr> in
           case content d2 of
             None \<Rightarrow> (Inl IOError, r1, d2)
           | Some fileContent \<Rightarrow>
               (Inr fileContent, r1\<lparr>cachedValue := Some fileContent\<rparr>, d2))))"

text \<open>The watcher fires: every registered listener sets the cache to \<open>null\<close>.\<close>

definition watcherFires :: "CachedFileReader \<Rightarrow> disk \<Rightarrow> CachedFileReader" where
  "watcherFires r d = (if listeners d = 0 then r else r\<lparr>cachedValue := None\<rparr>)"

definition dispose :: "CachedFileReader \<Rightarrow> disk \<Rightarrow> CachedFileReader \<times> disk" where
  "dispose r d =
     (if watcher r then (r\<lparr>watcher := False\<rparr>, d\<lparr>listeners := 0\<rparr>) else (r, d))"

section \<open>The configuration resolver\<close>

text \<open>
  A parsed configuration file: \<open>includes\<close>, \<open>parameters.ignoreErrors\<close>, and the
  scalar settings by key.
\<close>

record 'v PHPStanConfig =
  cfg_includes :: "jsstring list option"
  parameters_ignoreErrors :: "'v list option"
  scalars :: "jsstring \<rightharpoonup> jsstring"

text \<open>
  Modelled from the spec: \<open>deepObjectJoin\<close> (in \<open>shared/util\<close>) is missing from the
  sources. It builds a new document in which the scalar keys of the second document
  overwrite those of the first, and sequence-valued keys are concatenated.
\<close>

fun joinSeq :: "'a list option \<Rightarrow> 'a list option \<Rightarrow> 'a list option" where
  "joinSeq None y = y"
| "joinSeq (Some xs) None = Some xs"
| "joinSeq (Some xs) (Some ys) = Some (xs @ ys)"

definition deepObjectJoin :: "'v PHPStanConfig \<Rightarrow> 'v PHPStanConfig \<Rightarrow> 'v PHPStanConfig" where
  "deepObjectJoin a b =
     \<lparr>cfg_includes = joinSeq (cfg_includes a) (cfg_includes b),
      parameters_ignoreErrors = joinSeq (parameters_ignoreErrors a) (parameters_ignoreErrors b),
      scalars = scalars a ++ scalars b\<rparr>"

text \<open>
  \<open>getPHPStanConfig\<close>. Two things it calls are parameters: \<open>rd\<close> is
  \<open>parseNeonFile(await readConfigFile(path))\<close>, the parsed content of a file as the
  cached readers give it, or the error of a file that cannot be read; \<open>pathOf\<close> is
  \<open>path.join(path.dirname(configFile), include)\<close>. The loop runs over the \<open>includes\<close>
  of the entry file as it was parsed.
\<close>

fun joinIncludes ::
  "(jsstring \<Rightarrow> error + 'v PHPStanConfig) \<Rightarrow> (jsstring \<Rightarrow> jsstring) \<Rightarrow> 'v PHPStanConfig
    \<Rightarrow> jsstring list \<Rightarrow> error + 'v PHPStanConfig" where
  "joinIncludes rd pathIn entrypointFile [] = Inr entrypointFile"
| "joinIncludes rd pathIn entrypointFile (inc # incs) =
     (case rd (pathIn inc) of
        Inl x \<Rightarrow> Inl x
      | Inr doc \<Rightarrow> joinIncludes rd pathIn (deepObjectJoin entrypointFile doc) incs)"

definition getPHPStanConfig ::
  "(jsstring \<Rightarrow> error + 'v PHPStanConfig) \<Rightarrow> (jsstring \<Rightarrow> jsstring \<Rightarrow> jsstring) \<Rightarrow> jsstring
    \<Rightarrow> error + 'v PHPStanConfig" where
  "getPHPStanConfig rd pathOf configFile =
     (case rd configFile of
        Inl x \<Rightarrow> Inl x
      | Inr entrypointFile \<Rightarrow>
          (case cfg_includes entrypointFile of
             None \<Rightarrow> Inr entrypointFile
           | Some incs \<Rightarrow> joinIncludes rd (pathOf configFile) entrypointFile incs))"

definition rulesOf :: "'v PHPStanConfig \<Rightarrow> 'v list" where
  "rulesOf file = (case parameters_ignoreErrors file of None \<Rightarrow> [] | Some rs \<Rightarrow> rs)"

text \<open>
  \<open>getErrorsToIgnore\<close>. \<open>!checkConfig.configFile\<close> holds for a file name that is
  absent or empty.
\<close>

definition getErrorsToIgnore ::
  "(jsstring \<Rightarrow> error + 'v PHPStanConfig) \<Rightarrow> (jsstring \<Rightarrow> jsstring \<Rightarrow> jsstring)
    \<Rightarrow> jsstring option \<Rightarrow> error + 'v list" where
  "getErrorsToIgnore rd pathOf configFile =
     (case configFile of
        None \<Rightarrow> Inr []
      | Some f \<Rightarrow>
          if f = [] then Inr []
          else (case getPHPStanConfig rd pathOf f of
             Inl x \<Rightarrow> Inl x
           | Inr file \<Rightarrow> Inr (rulesOf file)))"

text \<open>
  The resolution as the specification words it, for comparison: every included file is
  itself resolved, with its own includes, before it is merged. \<open>n\<close> bounds the depth.
\<close>

fun resolveTransitively ::
  "nat \<Rightarrow> (jsstring \<Rightarrow> error + 'v PHPStanConfig) \<Rightarrow> (jsstring \<Rightarrow> jsstring \<Rightarrow> jsstring)
    \<Rightarrow> jsstring \<Rightarrow> error + 'v PHPStanConfig" where
  "resolveTransitively 0 rd pathOf f = rd f"
| "resolveTransitively (Suc n) rd pathOf f =
     (case rd f of
        Inl x \<Rightarrow> Inl x
      | Inr root \<Rightarrow>
          (case cfg_includes root of
             None \<Rightarrow> Inr root
           | Some incs \<Rightarrow>
               joinIncludes (resolveTransitively n rd pathOf) (pathOf f) root incs))"

section \<open>The suppression engine (ignore filter)\<close>

subsection \<open>Data\<close>

text \<open>
  \<open>string | RegExp\<close>. The regular expression engine is not part of the repository:
  a regular expression is a value of a type \<open>'r\<close>, and \<open>RegExp.prototype.test\<close> is a
  parameter \<open>t :: 'r \<Rightarrow> jsstring \<Rightarrow> bool\<close> of every function that matches (a pure
  test, as for an expression without the global or sticky flag).
\<close>

datatype 'r matcher = MString jsstring | MRegExp 'r

text \<open>
  The object form of \<open>PHPStanIgnoreError\<close>. Every field can be absent at run time:
  \<open>message\<close> is absent in the object that the spread \<open>{...err}\<close> builds from a
  \<open>RegExp\<close> (a \<open>RegExp\<close> has no own enumerable property), and in a configuration
  entry written without it. \<open>count\<close> is a JavaScript number, modelled as an integer.
\<close>

record 'r rule_obj =
  message :: "'r matcher option"
  count :: "int option"
  path :: "jsstring option"
  paths :: "jsstring list option"

text \<open>
  Rule objects are mutable and live in a store: an address is an index into the list
  of allocated objects, and allocation appends. References are always valid in
  JavaScript, so the functions below are meant for stores that contain every address they
  are given.
\<close>

type_synonym 'r heap = "'r rule_obj list"

text \<open>
  An entry of \<open>ignoreErrors\<close>: \<open>undefined\<close>, a string, a \<open>RegExp\<close>, a reference to a
  rule object, or an \<open>InvalidNeonValue\<close> (\<open>{invalid: true, source}\<close>).
\<close>

datatype 'r jsval =
    Undefined
  | Str jsstring
  | Re 'r
  | Obj nat
  | Invalid jsstring

text \<open>Of a \<open>Diagnostic\<close> the filter reads the message only; the rest is carried along.\<close>

record Diagnostic =
  diag_message :: jsstring
  diag_rest :: nat

definition emptyObj :: "'r rule_obj" where
  "emptyObj = \<lparr>message = None, count = None, path = None, paths = None\<rparr>"

subsection \<open>matchesStringOrRegexp and isIgnored\<close>

fun matchesStringOrRegexp :: "('r \<Rightarrow> jsstring \<Rightarrow> bool) \<Rightarrow> jsstring \<Rightarrow> 'r matcher \<Rightarrow> bool" where
  "matchesStringOrRegexp t target (MString s) = str_includes target s"
| "matchesStringOrRegexp t target (MRegExp r) = t r target"

text \<open>
  \<open>isIgnored\<close> scans the rules in order. The array of rules is not changed; the store
  is, when a rule with a non-zero \<open>count\<close> matches. A rule object without \<open>message\<close>
  (and an \<open>InvalidNeonValue\<close>, which has none either) reaches
  \<open>matcher.test(target)\<close> with \<open>matcher\<close> undefined, which throws a \<open>TypeError\<close>.
  \<open>undefined\<close> is neither a string, a \<open>RegExp\<close> nor an object and is passed over.
\<close>

fun isIgnored ::
  "('r \<Rightarrow> jsstring \<Rightarrow> bool) \<Rightarrow> Diagnostic \<Rightarrow> 'r jsval list \<Rightarrow> 'r heap
    \<Rightarrow> error + (bool \<times> 'r heap)" where
  "isIgnored t e [] h = Inr (False, h)"
| "isIgnored t e (Str s # rs) h =
     (if matchesStringOrRegexp t (diag_message e) (MString s) then Inr (True, h)
      else isIgnored t e rs h)"
| "isIgnored t e (Re r # rs) h =
     (if matchesStringOrRegexp t (diag_message e) (MRegExp r) then Inr (True, h)
      else isIgnored t e rs h)"
| "isIgnored t e (Obj a # rs) h =
     (let ignoredError = h ! a in
      if count ignoredError = Some 0 then isIgnored t e rs h
      else case message ignoredError of
        None \<Rightarrow> Inl TypeError
      | Some m \<Rightarrow>
          if matchesStringOrRegexp t (diag_message e) m
          then Inr (True,
            case count ignoredError of
              None \<Rightarrow> h
            | Some c \<Rightarrow> if c \<noteq> 0 then h[a := ignoredError\<lparr>count := Some (c - 1)\<rparr>] else h)
          else isIgnored t e rs h)"
| "isIgnored t e (Undefined # rs) h = isIgnored t e rs h"
| "isIgnored t e (Invalid src # rs) h = Inl TypeError"

subsection \<open>filterBaselineErrorsForFile\<close>

text \<open>\<open>!x\<close> for an optional string: absent or empty.\<close>

definition falsy :: "jsstring option \<Rightarrow> bool" where
  "falsy x = (x = None \<or> x = Some [])"

text \<open>
  The callback of \<open>ignoreErrors.filter\<close>: does the rule apply to the file? The empty
  string is falsy, so it is dropped with \<open>undefined\<close>. The test before the path check is
  \<open>!error.path && !error.path\<close>, as in the source.
\<close>

fun appliesToFile :: "jsstring \<Rightarrow> 'r heap \<Rightarrow> 'r jsval \<Rightarrow> bool" where
  "appliesToFile originalFilePath h Undefined = False"
| "appliesToFile originalFilePath h (Str s) = (s \<noteq> [])"
| "appliesToFile originalFilePath h (Re r) = True"
| "appliesToFile originalFilePath h (Invalid src) = False"
| "appliesToFile originalFilePath h (Obj a) =
     (let error = h ! a in
      if falsy (path error) \<and> falsy (path error) then True
      else
        let ps = (case paths error of
                    Some errorPaths \<Rightarrow> errorPaths
                  | None \<Rightarrow> (case path error of Some p \<Rightarrow> [p] | None \<Rightarrow> []))
        in list_ex (\<lambda>errorPath. str_includes originalFilePath errorPath) ps)"

text \<open>
  The callback of \<open>.map\<close>: \<open>typeof err === 'object' ? {...err} : err\<close>. A rule object
  is copied into a fresh object. A \<open>RegExp\<close> is an object too, and its spread is the
  empty object. An \<open>InvalidNeonValue\<close> is immutable here, so its copy is itself.
\<close>

fun shallowCopies :: "'r jsval list \<Rightarrow> 'r heap \<Rightarrow> 'r jsval list \<times> 'r heap" where
  "shallowCopies [] h = ([], h)"
| "shallowCopies (Obj a # vs) h =
     (let (vs', h') = shallowCopies vs (h @ [h ! a]) in (Obj (length h) # vs', h'))"
| "shallowCopies (Re r # vs) h =
     (let (vs', h') = shallowCopies vs (h @ [emptyObj]) in (Obj (length h) # vs', h'))"
| "shallowCopies (Undefined # vs) h =
     (let (vs', h') = shallowCopies vs h in (Undefined # vs', h'))"
| "shallowCopies (Str s # vs) h =
     (let (vs', h') = shallowCopies vs h in (Str s # vs', h'))"
| "shallowCopies (Invalid src # vs) h =
     (let (vs', h') = shallowCopies vs h in (Invalid src # vs', h'))"

definition matchingErrors ::
  "jsstring \<Rightarrow> 'r jsval list \<Rightarrow> 'r heap \<Rightarrow> 'r jsval list \<times> 'r heap" where
  "matchingErrors originalFilePath ignoreErrors h =
     shallowCopies (filter (appliesToFile originalFilePath h) ignoreErrors) h"

text \<open>The loop over the diagnostics; \<open>finalErrors\<close> is the array that is pushed to.\<close>

fun finalErrorsLoop ::
  "('r \<Rightarrow> jsstring \<Rightarrow> bool) \<Rightarrow> Diagnostic list \<Rightarrow> 'r jsval list \<Rightarrow> Diagnostic list
    \<Rightarrow> 'r heap \<Rightarrow> error + (Diagnostic list \<times> 'r heap)" where
  "finalErrorsLoop t [] rules finalErrors h = Inr (finalErrors, h)"
| "finalErrorsLoop t (e # es) rules finalErrors h =
     (case isIgnored t e rules h of
        Inl x \<Rightarrow> Inl x
      | Inr (ignored, h') \<Rightarrow>
          finalErrorsLoop t es rules
            (if ignored then finalErrors else finalErrors @ [e]) h')"

text \<open>
  \<open>filterBaselineErrorsForFile\<close>. \<open>rd\<close> and \<open>pathOf\<close> are the parameters of
  \<open>getErrorsToIgnore\<close>; the rule objects that parsing built are in the store \<open>h\<close>.
  The result is the filtered list and the store after the pass.
\<close>

definition filterBaselineErrorsForFile ::
  "(jsstring \<Rightarrow> error + 'r jsval PHPStanConfig) \<Rightarrow> (jsstring \<Rightarrow> jsstring \<Rightarrow> jsstring)
    \<Rightarrow> ('r \<Rightarrow> jsstring \<Rightarrow> bool) \<Rightarrow> jsstring option \<Rightarrow> jsstring \<Rightarrow> Diagnostic list
    \<Rightarrow> 'r heap \<Rightarrow> error + (Diagnostic list \<times> 'r heap)" where
  "filterBaselineErrorsForFile rd pathOf t configFile originalFilePath errors h =
     (case getErrorsToIgnore rd pathOf configFile of
        Inl x \<Rightarrow> Inl x
      | Inr ignoreErrors \<Rightarrow>
          (case matchingErrors originalFilePath ignoreErrors h of
             (rules, h1) \<Rightarrow> finalErrorsLoop t errors rules [] h1))"

subsection \<open>Which rule suppresses a diagnostic\<close>

text \<open>
  The scan of a diagnostic reaches rule \<open>i\<close> when \<open>isIgnored\<close> on the rules before it
  returns false; rule \<open>i\<close> suppresses the diagnostic when, moreover, \<open>isIgnored\<close> on
  rule \<open>i\<close> alone returns true. \<open>suppressedCount\<close> and \<open>matchCount\<close> count, along one
  pass of the loop (the store changing as the loop changes it), the diagnostics that
  rule \<open>i\<close> suppresses, and those that reach rule \<open>i\<close> with a message that the
  matcher \<open>m\<close> matches.
\<close>

definition reachesRule ::
  "('r \<Rightarrow> jsstring \<Rightarrow> bool) \<Rightarrow> Diagnostic \<Rightarrow> 'r jsval list \<Rightarrow> nat \<Rightarrow> 'r heap \<Rightarrow> bool" where
  "reachesRule t e rules i h =
     (case isIgnored t e (take i rules) h of Inl x \<Rightarrow> False | Inr (ig, h') \<Rightarrow> \<not> ig)"

definition suppressedBy ::
  "('r \<Rightarrow> jsstring \<Rightarrow> bool) \<Rightarrow> Diagnostic \<Rightarrow> 'r jsval list \<Rightarrow> nat \<Rightarrow> 'r heap \<Rightarrow> bool" where
  "suppressedBy t e rules i h =
     (reachesRule t e rules i h \<and>
      (case isIgnored t e [rules ! i] h of Inl x \<Rightarrow> False | Inr (ig, h') \<Rightarrow> ig))"

fun suppressedCount ::
  "('r \<Rightarrow> jsstring \<Rightarrow> bool) \<Rightarrow> Diagnostic list \<Rightarrow> 'r jsval list \<Rightarrow> nat \<Rightarrow> 'r heap \<Rightarrow> nat" where
  "suppressedCount t [] rules i h = 0"
| "suppressedCount t (e # es) rules i h =
     (if suppressedBy t e rules i h then 1 else 0) +
     (case isIgnored t e rules h of
        Inl x \<Rightarrow> 0
      | Inr (ig, h') \<Rightarrow> suppressedCount t es rules i h')"

fun matchCount ::
  "('r \<Rightarrow> jsstring \<Rightarrow> bool) \<Rightarrow> Diagnostic list \<Rightarrow> 'r jsval list \<Rightarrow> nat \<Rightarrow> 'r matcher
    \<Rightarrow> 'r heap \<Rightarrow> nat" where
  "matchCount t [] rules i m h = 0"
| "matchCount t (e # es) rules i m h =
     (if reachesRule t e rules i h \<and> matchesStringOrRegexp t (diag_message e) m
      then 1 else 0) +
     (case isIgnored t e rules h of
        Inl x \<Rightarrow> 0
      | Inr (ig, h') \<Rightarrow> matchCount t es rules i m h')"

subsection \<open>Comparing two passes\<close>

text \<open>
  Two lists of rules, each read in its own store, stand for the same rules when they
  agree entry by entry, an object on one side facing an object with the same fields on
  the other. \<open>distinctRefs\<close>: no object is referred to twice in the list.
  \<open>sameEffect\<close>: two stores were changed in the same way, not at all or by the same
  new value written to the objects at the same position of the two lists.
\<close>

fun sameRule :: "'r heap \<Rightarrow> 'r heap \<Rightarrow> 'r jsval \<Rightarrow> 'r jsval \<Rightarrow> bool" where
  "sameRule g1 g2 (Obj a1) (Obj a2) = (a1 < length g1 \<and> a2 < length g2 \<and> g1 ! a1 = g2 ! a2)"
| "sameRule g1 g2 (Str s1) (Str s2) = (s1 = s2)"
| "sameRule g1 g2 (Re r1) (Re r2) = (r1 = r2)"
| "sameRule g1 g2 Undefined Undefined = True"
| "sameRule g1 g2 (Invalid s1) (Invalid s2) = (s1 = s2)"
| "sameRule g1 g2 v1 v2 = False"

definition distinctRefs :: "'r jsval list \<Rightarrow> bool" where
  "distinctRefs rs = distinct [a. Obj a \<leftarrow> rs]"

definition sameEffect ::
  "'r jsval list \<Rightarrow> 'r jsval list \<Rightarrow> 'r heap \<Rightarrow> 'r heap \<Rightarrow> 'r heap \<Rightarrow> 'r heap \<Rightarrow> bool" where
  "sameEffect rs1 rs2 g1 g2 g1' g2' =
     ((g1' = g1 \<and> g2' = g2) \<or>
      (\<exists>i a1 a2 x. i < length rs1 \<and> rs1 ! i = Obj a1 \<and> rs2 ! i = Obj a2 \<and>
          g1' = g1[a1 := x] \<and> g2' = g2[a2 := x]))"

subsection \<open>Example inputs\<close>

text \<open>
  In the examples a regular expression is the string it must find at the start of the
  target, so \<open>prefix\<close> stands for \<open>RegExp.prototype.test\<close>.
\<close>

definition ex_rule :: "jsstring rule_obj" where
  "ex_rule = \<lparr>message = Some (MString (js ''Undefined variable'')), count = Some 1,
     path = None, paths = None\<rparr>"

definition ex_paths_rule :: "jsstring rule_obj" where
  "ex_paths_rule = \<lparr>message = Some (MString (js ''Undefined variable'')), count = None,
     path = None, paths = Some [js ''src/a'']\<rparr>"

definition ex_diag :: "nat \<Rightarrow> Diagnostic" where
  "ex_diag k = \<lparr>diag_message = js ''Undefined variable $foo'', diag_rest = k\<rparr>"

text \<open>A configuration file without includes that holds the given rules.\<close>

definition ex_config :: "jsstring jsval list \<Rightarrow> jsstring \<Rightarrow> error + jsstring jsval PHPStanConfig" where
  "ex_config rules f =
     Inr \<lparr>cfg_includes = None, parameters_ignoreErrors = Some rules, scalars = Map.empty\<rparr>"

definition ex_pathOf :: "jsstring \<Rightarrow> jsstring \<Rightarrow> jsstring" where
  "ex_pathOf configFile inc = inc"

text \<open>
  An example: \<open>phpstan.neon\<close> includes \<open>a.neon\<close>, which includes \<open>b.neon\<close>; each
  file has one rule and sets the scalar \<open>level\<close>.
\<close>

definition ex_files :: "jsstring \<Rightarrow> error + jsstring jsval PHPStanConfig" where
  "ex_files f =
     (if f = js ''phpstan.neon'' then
        Inr \<lparr>cfg_includes = Some [js ''a.neon''], parameters_ignoreErrors = Some [Str (js ''bar'')],
             scalars = [js ''level'' \<mapsto> js ''1'']\<rparr>
      else if f = js ''a.neon'' then
        Inr \<lparr>cfg_includes = Some [js ''b.neon''], parameters_ignoreErrors = Some [Str (js ''foo'')],
             scalars = [js ''level'' \<mapsto> js ''5'']\<rparr>
      else if f = js ''b.neon'' then
        Inr \<lparr>cfg_includes = None, parameters_ignoreErrors = Some [Str (js ''baz'')],
             scalars = [js ''level'' \<mapsto> js ''9'']\<rparr>
      else Inl IOError)"

section \<open>The pro session (launchPro)\<close>

subsection \<open>The progress marker\<close>

text \<open>
  The character classes of the regular expression
  \<open>/(\d+)\/(\d+)\s+\[.*?\]\s+(\d+)%/g\<close>, on code units: \<open>\d\<close> is an ASCII digit,
  \<open>\s\<close> is white space or a line terminator, and \<open>.\<close> is anything but a line
  terminator.
\<close>

definition isDigit :: "nat \<Rightarrow> bool" where
  "isDigit c = (48 \<le> c \<and> c \<le> 57)"

definition isLineTerminator :: "nat \<Rightarrow> bool" where
  "isLineTerminator c = (c = 10 \<or> c = 13 \<or> c = 8232 \<or> c = 8233)"

definition isWhiteSpace :: "nat \<Rightarrow> bool" where
  "isWhiteSpace c =
     (c = 9 \<or> c = 11 \<or> c = 12 \<or> c = 32 \<or> c = 160 \<or> c = 5760 \<or>
      (8192 \<le> c \<and> c \<le> 8202) \<or> c = 8239 \<or> c = 8287 \<or> c = 12288 \<or>
      c = 65279 \<or> isLineTerminator c)"

text \<open>
  One attempt of the expression at the start of \<open>s\<close>, as the backtracking matcher makes
  it. A greedy run \<open>\d+\<close> or \<open>\s+\<close> can only be the longest one: after a shorter
  run the next character is in the class again, and the token that follows the run
  (\<open>/\<close>, white space, \<open>[\<close>, a digit, \<open>%\<close>) is outside it. The lazy \<open>.*?\<close> stops
  at the first \<open>]\<close> after which \<open>\s+(\d+)%\<close> matches, and cannot cross a line
  terminator. The result is the three captured groups and the length of the match.
\<close>

definition matchTail :: "jsstring \<Rightarrow> (jsstring \<times> nat) option" where
  "matchTail s =
     (let ws = takeWhile isWhiteSpace s; r1 = dropWhile isWhiteSpace s;
          d = takeWhile isDigit r1; r2 = dropWhile isDigit r1
      in if ws \<noteq> [] \<and> d \<noteq> [] \<and> (case r2 of [] \<Rightarrow> False | c # r3 \<Rightarrow> c = 37)
         then Some (d, length ws + length d + 1) else None)"

fun lazyDots :: "jsstring \<Rightarrow> (jsstring \<times> nat) option" where
  "lazyDots [] = None"
| "lazyDots (c # cs) =
     (case (if c = 93 then matchTail cs else None) of
        Some (d, n) \<Rightarrow> Some (d, Suc n)
      | None \<Rightarrow>
          if isLineTerminator c then None
          else (case lazyDots cs of Some (d, n) \<Rightarrow> Some (d, Suc n) | None \<Rightarrow> None))"

definition matchAt :: "jsstring \<Rightarrow> ((jsstring \<times> jsstring \<times> jsstring) \<times> nat) option" where
  "matchAt s =
     (let d1 = takeWhile isDigit s; r1 = dropWhile isDigit s in
      if d1 = [] then None
      else (case r1 of
        [] \<Rightarrow> None
      | c # r2 \<Rightarrow>
          (let d2 = takeWhile isDigit r2; r3 = dropWhile isDigit r2;
               ws = takeWhile isWhiteSpace r3; r4 = dropWhile isWhiteSpace r3
           in if c \<noteq> 47 \<or> d2 = [] \<or> ws = [] then None
              else (case r4 of
                [] \<Rightarrow> None
              | b # r5 \<Rightarrow>
                  (if b \<noteq> 91 then None
                   else (case lazyDots r5 of
                     None \<Rightarrow> None
                   | Some (d3, n) \<Rightarrow>
                       Some ((d1, d2, d3),
                         length d1 + 1 + length d2 + length ws + 1 + n)))))))"

text \<open>
  \<open>line.matchAll(re)\<close> with the global flag: the matches from left to right, each
  search starting where the last match ended. The first argument counts the characters
  that still belong to the last match.
\<close>

fun matchAllFrom :: "nat \<Rightarrow> jsstring \<Rightarrow> (jsstring \<times> jsstring \<times> jsstring) list" where
  "matchAllFrom k [] = []"
| "matchAllFrom (Suc k) (c # cs) = matchAllFrom k cs"
| "matchAllFrom 0 (c # cs) =
     (case matchAt (c # cs) of
        Some (groups, n) \<Rightarrow> groups # matchAllFrom (n - 1) cs
      | None \<Rightarrow> matchAllFrom 0 cs)"

definition matchAll :: "jsstring \<Rightarrow> (jsstring \<times> jsstring \<times> jsstring) list" where
  "matchAll line = matchAllFrom 0 line"

text \<open>
  \<open>parseInt(digits, 10)\<close> on a string of decimal digits. (JavaScript rounds a value
  above \<open>2^53\<close> to a double; the model is exact.)
\<close>

definition parseInt10 :: "jsstring \<Rightarrow> nat" where
  "parseInt10 ds = foldl (\<lambda>acc d. 10 * acc + (d - 48)) 0 ds"

record progress =
  progress_done :: nat
  progress_total :: nat
  progress_percentage :: nat

definition toProgress :: "jsstring \<times> jsstring \<times> jsstring \<Rightarrow> progress" where
  "toProgress groups =
     (case groups of (d, t, p) \<Rightarrow>
        \<lparr>progress_done = parseInt10 d, progress_total = parseInt10 t,
         progress_percentage = parseInt10 p\<rparr>)"

subsection \<open>The handler of stdout chunks\<close>

datatype action =
    Log jsstring
  | OnProgress progress
  | WaitThenCheck

definition readyMarker :: jsstring where
  "readyMarker = js ''Open your web browser at:''"

text \<open>
  What the \<open>data\<close> handler of \<open>proc.stdout\<close> does with one chunk: it logs the
  chunk; with a progress callback and at least one progress marker it calls the callback
  on the last match and returns; otherwise, when the chunk contains the readiness marker,
  it starts the wait of 100 ms that is followed by the check of the config folder.
\<close>

definition onStdoutData :: "bool \<Rightarrow> jsstring \<Rightarrow> action list" where
  "onStdoutData hasOnProgress line =
     (let progressMatch = matchAll line in
      Log (js ''PHPStan Pro: '' @ line) #
      (if hasOnProgress \<and> progressMatch \<noteq> [] then [OnProgress (toProgress (last progressMatch))]
       else if str_includes line readyMarker then [WaitThenCheck]
       else []))"

subsection \<open>The promise that launchPro returns\<close>

datatype PHPStanProProcess = PHPStanProProcess jsstring

datatype result = Success PHPStanProProcess | Failure jsstring

text \<open>
  The events that reach the promise's callbacks: a chunk on stdout or stderr, the
  process's \<open>error\<close> (with its message) and \<open>exit\<close> (with its code, or \<open>null\<close>),
  and the end of a wait of 100 ms, with the answer of \<open>pathExists(configDirPath)\<close> at
  that time.
\<close>

datatype event =
    StdoutData jsstring
  | StderrData jsstring
  | ProcError jsstring
  | ProcExit "int option"
  | GraceElapsed bool

record launch_state =
  stderr :: jsstring
  resolved :: "result option"
  pendingChecks :: nat
  constructed :: "PHPStanProProcess list"
  reported :: "progress list"

definition initialState :: launch_state where
  "initialState = \<lparr>stderr = [], resolved = None, pendingChecks = 0, constructed = [],
     reported = []\<rparr>"

text \<open>\<open>resolve(r)\<close>: a promise keeps the first value it is resolved with.\<close>

definition resolve :: "result \<Rightarrow> launch_state \<Rightarrow> launch_state" where
  "resolve r s = (case resolved s of None \<Rightarrow> s\<lparr>resolved := Some r\<rparr> | Some r0 \<Rightarrow> s)"

fun showNat :: "nat \<Rightarrow> jsstring" where
  "showNat n = (if n < 10 then [48 + n] else showNat (n div 10) @ [48 + n mod 10])"

definition showInt :: "int \<Rightarrow> jsstring" where
  "showInt i = (if i < 0 then 45 # showNat (nat (- i)) else showNat (nat i))"

definition tmpFolderMissing :: jsstring where
  "tmpFolderMissing = js ''Failed to launch PHPStan Pro (tmp folder does not exist)''"

fun applyAction :: "action \<Rightarrow> launch_state \<Rightarrow> launch_state" where
  "applyAction (Log l) s = s"
| "applyAction (OnProgress p) s = s\<lparr>reported := reported s @ [p]\<rparr>"
| "applyAction WaitThenCheck s = s\<lparr>pendingChecks := Suc (pendingChecks s)\<rparr>"

text \<open>
  One event. \<open>configDirPath\<close> is \<open>path.join(tmpPath, 'phpstan-fixer')\<close>. The end of
  a wait can only come when a wait was started; the session handle is built before
  \<open>resolve\<close> is called with it.
\<close>

fun step :: "bool \<Rightarrow> jsstring \<Rightarrow> event \<Rightarrow> launch_state \<Rightarrow> launch_state" where
  "step hasOnProgress configDirPath (StdoutData chunk) s =
     fold applyAction (onStdoutData hasOnProgress chunk) s"
| "step hasOnProgress configDirPath (StderrData chunk) s = s\<lparr>stderr := stderr s @ chunk\<rparr>"
| "step hasOnProgress configDirPath (ProcError msg) s =
     resolve (Failure (js ''Failed to launch PHPStan Pro: '' @ msg @ js '' - '' @ stderr s)) s"
| "step hasOnProgress configDirPath (ProcExit code) s =
     resolve (Failure (js ''PHPStan Pro exited with code '' @
        (case code of None \<Rightarrow> js ''?'' | Some c \<Rightarrow> showInt c) @ js '': '' @ stderr s)) s"
| "step hasOnProgress configDirPath (GraceElapsed folderExists) s =
     (if pendingChecks s = 0 then s
      else
        let s1 = s\<lparr>pendingChecks := pendingChecks s - 1\<rparr> in
        if \<not> folderExists then resolve (Failure tmpFolderMissing) s1
        else resolve (Success (PHPStanProProcess configDirPath))
               (s1\<lparr>constructed := constructed s1 @ [PHPStanProProcess configDirPath]\<rparr>))"

definition run :: "bool \<Rightarrow> jsstring \<Rightarrow> event list \<Rightarrow> launch_state \<Rightarrow> launch_state" where
  "run hasOnProgress configDirPath evs s = fold (step hasOnProgress configDirPath) evs s"


section \<open>Properties of the suppression engine\<close>

subsection \<open>Auxiliary facts\<close>

lemma isIgnored_False_heap:
  "isIgnored t e rs h = Inr (False, h') \<Longrightarrow> h' = h"
  by (induction t e rs h rule: isIgnored.induct)
     (auto simp: Let_def split: if_splits option.splits)

lemma isIgnored_length:
  "isIgnored t e rs h = Inr (b, h') \<Longrightarrow> length h' = length h"
  by (induction t e rs h rule: isIgnored.induct)
     (auto simp: Let_def split: if_splits option.splits)

lemma isIgnored_frame:
  "isIgnored t e rs h = Inr (b, h') \<Longrightarrow> Obj a \<notin> set rs \<Longrightarrow> h' ! a = h ! a"
  by (induction t e rs h rule: isIgnored.induct)
     (auto simp: Let_def split: if_splits option.splits)

lemma isIgnored_append:
  "isIgnored t e (xs @ ys) h =
     (case isIgnored t e xs h of
        Inl x \<Rightarrow> Inl x
      | Inr (b, h') \<Rightarrow> if b then Inr (True, h') else isIgnored t e ys h)"
  by (induction t e xs h rule: isIgnored.induct)
     (auto simp: Let_def split: if_splits option.splits sum.splits)

lemma finalErrorsLoop_acc:
  "finalErrorsLoop t es rules acc h = Inr (kept, h') \<Longrightarrow>
     \<exists>k. kept = acc @ k \<and> subseq k es"
proof (induction es arbitrary: acc h)
  case Nil
  then show ?case by simp
next
  case (Cons e es)
  then obtain ig h1 where s: "isIgnored t e rules h = Inr (ig, h1)"
    by (auto split: sum.splits)
  with Cons.prems have
    "finalErrorsLoop t es rules (if ig then acc else acc @ [e]) h1 = Inr (kept, h')"
    by simp
  from Cons.IH [OF this] obtain k where
    k: "kept = (if ig then acc else acc @ [e]) @ k" "subseq k es" by blast
  show ?case
  proof (cases ig)
    case True
    with k show ?thesis by auto
  next
    case False
    with k have "kept = acc @ (e # k)" "subseq (e # k) (e # es)" by auto
    then show ?thesis by blast
  qed
qed

lemma rule_step:
  assumes rules: "rules = pre @ Obj a # post"
    and pre: "Obj a \<notin> set pre" and post: "Obj a \<notin> set post"
    and a: "a < length h"
    and cnt: "count (h ! a) = Some n" and n: "0 \<le> n"
    and msg: "message (h ! a) = Some m"
    and run: "isIgnored t e rules h = Inr (ig, h')"
  shows "a < length h'"
    and "message (h' ! a) = Some m"
    and "count (h' ! a) = Some (n - (if suppressedBy t e rules (length pre) h then 1 else 0))"
    and "suppressedBy t e rules (length pre) h \<longleftrightarrow>
          reachesRule t e rules (length pre) h \<and> matchesStringOrRegexp t (diag_message e) m \<and> 0 < n"
proof -
  have tk: "take (length pre) rules = pre" and nth: "rules ! length pre = Obj a"
    using rules by simp_all
  show len: "a < length h'" using run a by (simp add: isIgnored_length)
  have sup: "suppressedBy t e rules (length pre) h \<longleftrightarrow>
      reachesRule t e rules (length pre) h \<and> matchesStringOrRegexp t (diag_message e) m \<and> 0 < n"
    using cnt n msg by (auto simp: suppressedBy_def nth Let_def)
  show "suppressedBy t e rules (length pre) h \<longleftrightarrow>
      reachesRule t e rules (length pre) h \<and> matchesStringOrRegexp t (diag_message e) m \<and> 0 < n"
    by (rule sup)
  have split: "isIgnored t e rules h =
     (case isIgnored t e pre h of
        Inl x \<Rightarrow> Inl x
      | Inr (b, h1) \<Rightarrow> if b then Inr (True, h1) else isIgnored t e (Obj a # post) h)"
    unfolding rules by (rule isIgnored_append)
  have both: "message (h' ! a) = Some m \<and>
        count (h' ! a) = Some (n - (if suppressedBy t e rules (length pre) h then 1 else 0))"
  proof (cases "isIgnored t e pre h")
    case (Inl x)
    with split run show ?thesis by simp
  next
    case (Inr p)
    obtain b h1 where p: "p = (b, h1)" by (cases p)
    show ?thesis
    proof (cases b)
      case True
      with Inr p split run have "h' = h1" by simp
      with Inr p pre have same: "h' ! a = h ! a" by (simp add: isIgnored_frame)
      from True Inr p have "\<not> reachesRule t e rules (length pre) h"
        by (simp add: reachesRule_def tk)
      with sup same cnt msg show ?thesis by simp
    next
      case False
      with Inr p have reach: "reachesRule t e rules (length pre) h"
        by (simp add: reachesRule_def tk)
      from False Inr p split run have rest: "isIgnored t e (Obj a # post) h = Inr (ig, h')"
        by simp
      show ?thesis
      proof (cases "matchesStringOrRegexp t (diag_message e) m \<and> 0 < n")
        case True
        with rest cnt msg have "h' = h[a := (h ! a)\<lparr>count := Some (n - 1)\<rparr>]"
          by (auto simp: Let_def)
        with a True reach sup msg show ?thesis by simp
      next
        case False
        with rest cnt msg n have "isIgnored t e post h = Inr (ig, h')"
          by (auto simp: Let_def split: if_splits)
        with post have "h' ! a = h ! a" by (simp add: isIgnored_frame)
        with False sup cnt msg show ?thesis by auto
      qed
    qed
  qed
  from both show "message (h' ! a) = Some m" by simp
  from both show
    "count (h' ! a) = Some (n - (if suppressedBy t e rules (length pre) h then 1 else 0))"
    by simp
qed

lemma quota_general:
  assumes rules: "rules = pre @ Obj a # post"
    and pre: "Obj a \<notin> set pre" and post: "Obj a \<notin> set post"
  shows "a < length h \<Longrightarrow> count (h ! a) = Some n \<Longrightarrow> 0 \<le> n \<Longrightarrow> message (h ! a) = Some m \<Longrightarrow>
     finalErrorsLoop t es rules acc h = Inr (kept, h') \<Longrightarrow>
     int (suppressedCount t es rules (length pre) h)
       = min n (int (matchCount t es rules (length pre) m h)) \<and>
     count (h' ! a) = Some (n - int (suppressedCount t es rules (length pre) h))"
proof (induction es arbitrary: h n acc)
  case Nil
  then show ?case by simp
next
  case (Cons e es)
  from Cons.prems(5) obtain ig h1 where s: "isIgnored t e rules h = Inr (ig, h1)"
    by (auto split: sum.splits)
  with Cons.prems(5) have run:
    "finalErrorsLoop t es rules (if ig then acc else acc @ [e]) h1 = Inr (kept, h')"
    by simp
  let ?S = "suppressedBy t e rules (length pre) h"
  let ?n = "n - (if ?S then 1 else 0)"
  note st = rule_step [OF rules pre post Cons.prems(1) Cons.prems(2) Cons.prems(3) Cons.prems(4) s]
  have n': "0 \<le> ?n" using st(4) Cons.prems(3) by auto
  from Cons.IH [OF st(1) st(3) n' st(2) run]
  have ih: "int (suppressedCount t es rules (length pre) h1)
       = min ?n (int (matchCount t es rules (length pre) m h1))"
     "count (h' ! a) = Some (?n - int (suppressedCount t es rules (length pre) h1))"
    by simp_all
  show ?case
  proof (cases ?S)
    case True
    with st(4) ih s show ?thesis by simp
  next
    case False
    show ?thesis
    proof (cases "reachesRule t e rules (length pre) h \<and> matchesStringOrRegexp t (diag_message e) m")
      case True
      with False st(4) Cons.prems(3) have "n = 0" by auto
      with True False ih s show ?thesis by simp
    next
      case F2: False
      with False ih s show ?thesis by auto
    qed
  qed
qed


lemma shallowCopies_grows:
  "shallowCopies vs h = (vs', h') \<Longrightarrow> \<exists>ext. h' = h @ ext"
proof (induction vs h arbitrary: vs' h' rule: shallowCopies.induct)
  case (1 h)
  then show ?case by simp
next
  case (2 a vs h)
  obtain ws g where r: "shallowCopies vs (h @ [h ! a]) = (ws, g)" by force
  with 2 show ?case by fastforce
next
  case (3 r vs h)
  obtain ws g where r: "shallowCopies vs (h @ [emptyObj]) = (ws, g)" by force
  with 3 show ?case by fastforce
qed (auto split: prod.splits)

lemma shallowCopies_fresh:
  "shallowCopies vs h = (vs', h') \<Longrightarrow> Obj a \<in> set vs' \<Longrightarrow> length h \<le> a \<and> a < length h'"
proof (induction vs h arbitrary: vs' h' rule: shallowCopies.induct)
  case (1 h)
  then show ?case by simp
next
  case (2 b vs h)
  obtain ws g where r: "shallowCopies vs (h @ [h ! b]) = (ws, g)" by force
  from shallowCopies_grows [OF r] have "length h < length g" by auto
  with 2 r show ?case by fastforce
next
  case (3 r vs h)
  obtain ws g where r: "shallowCopies vs (h @ [emptyObj]) = (ws, g)" by force
  from shallowCopies_grows [OF r] have "length h < length g" by auto
  with 3 r show ?case by fastforce
qed (auto split: prod.splits)

lemma shallowCopies_distinct:
  "shallowCopies vs h = (vs', h') \<Longrightarrow> i < length vs' \<Longrightarrow> vs' ! i = Obj a \<Longrightarrow>
     Obj a \<notin> set (take i vs') \<and> Obj a \<notin> set (drop (Suc i) vs')"
proof (induction vs h arbitrary: vs' h' i rule: shallowCopies.induct)
  case (1 h)
  then show ?case by simp
next
  case (2 b vs h)
  obtain ws g where r: "shallowCopies vs (h @ [h ! b]) = (ws, g)" by force
  with 2 have vs': "vs' = Obj (length h) # ws" by simp
  have fresh: "Obj (length h) \<notin> set ws" using shallowCopies_fresh [OF r] by fastforce
  show ?case
  proof (cases i)
    case 0
    with 2 vs' fresh show ?thesis by simp
  next
    case (Suc j)
    with 2 vs' have j: "j < length ws" "ws ! j = Obj a" by simp_all
    from "2.IH" [OF r j] have "Obj a \<notin> set (take j ws) \<and> Obj a \<notin> set (drop (Suc j) ws)" .
    moreover have "a \<noteq> length h" using fresh j nth_mem by fastforce
    ultimately show ?thesis using Suc vs' by simp
  qed
next
  case (3 r vs h)
  obtain ws g where r: "shallowCopies vs (h @ [emptyObj]) = (ws, g)" by force
  with 3 have vs': "vs' = Obj (length h) # ws" by simp
  have fresh: "Obj (length h) \<notin> set ws" using shallowCopies_fresh [OF r] by fastforce
  show ?case
  proof (cases i)
    case 0
    with 3 vs' fresh show ?thesis by simp
  next
    case (Suc j)
    with 3 vs' have j: "j < length ws" "ws ! j = Obj a" by simp_all
    from "3.IH" [OF r j] have "Obj a \<notin> set (take j ws) \<and> Obj a \<notin> set (drop (Suc j) ws)" .
    moreover have "a \<noteq> length h" using fresh j nth_mem by fastforce
    ultimately show ?thesis using Suc vs' by simp
  qed
next
  case (4 vs h)
  obtain ws g where r: "shallowCopies vs h = (ws, g)" by force
  with 4 have vs': "vs' = Undefined # ws" by simp
  show ?case
  proof (cases i)
    case 0
    with 4 vs' show ?thesis by simp
  next
    case (Suc j)
    with 4 vs' have j: "j < length ws" "ws ! j = Obj a" by simp_all
    from "4.IH" [OF r j] show ?thesis using Suc vs' by simp
  qed
next
  case (5 s vs h)
  obtain ws g where r: "shallowCopies vs h = (ws, g)" by force
  with 5 have vs': "vs' = Str s # ws" by simp
  show ?case
  proof (cases i)
    case 0
    with 5 vs' show ?thesis by simp
  next
    case (Suc j)
    with 5 vs' have j: "j < length ws" "ws ! j = Obj a" by simp_all
    from "5.IH" [OF r j] show ?thesis using Suc vs' by simp
  qed
next
  case (6 s vs h)
  obtain ws g where r: "shallowCopies vs h = (ws, g)" by force
  with 6 have vs': "vs' = Invalid s # ws" by simp
  show ?case
  proof (cases i)
    case 0
    with 6 vs' show ?thesis by simp
  next
    case (Suc j)
    with 6 vs' have j: "j < length ws" "ws ! j = Obj a" by simp_all
    from "6.IH" [OF r j] show ?thesis using Suc vs' by simp
  qed
qed

lemma isIgnored_zero_kept:
  "isIgnored t e rs h = Inr (b, h') \<Longrightarrow> count (h ! a) = Some 0 \<Longrightarrow> h' ! a = h ! a"
proof (induction t e rs h rule: isIgnored.induct)
  case (4 t e b' rs h)
  show ?case
  proof (cases "b' = a")
    case True
    with 4 show ?thesis by (auto simp: Let_def split: if_splits option.splits)
  next
    case False
    with 4 show ?thesis by (auto simp: Let_def split: if_splits option.splits)
  qed
qed (auto split: if_splits)

lemma isIgnored_skip_zero:
  assumes "count (h ! a) = Some 0"
  shows "isIgnored t e (pre @ Obj a # post) h = isIgnored t e (pre @ post) h"
proof -
  from assms have "isIgnored t e (Obj a # post) h = isIgnored t e post h"
    by (simp add: Let_def)
  then show ?thesis
    by (simp add: isIgnored_append [of t e pre] split: sum.splits)
qed

lemma finalErrorsLoop_skip_zero:
  "count (h ! a) = Some 0 \<Longrightarrow>
   finalErrorsLoop t es (pre @ Obj a # post) acc h = finalErrorsLoop t es (pre @ post) acc h"
proof (induction es arbitrary: acc h)
  case Nil
  show ?case by simp
next
  case (Cons e es)
  have same: "isIgnored t e (pre @ Obj a # post) h = isIgnored t e (pre @ post) h"
    using Cons.prems by (rule isIgnored_skip_zero)
  show ?case
  proof (cases "isIgnored t e (pre @ post) h")
    case (Inl x)
    with same show ?thesis by simp
  next
    case (Inr p)
    obtain ig h1 where p: "p = (ig, h1)" by (cases p)
    with Inr Cons.prems have "count (h1 ! a) = Some 0"
      by (simp add: isIgnored_zero_kept)
    from Cons.IH [OF this] Inr p same show ?thesis by simp
  qed
qed

lemma finalErrorsLoop_frame:
  "finalErrorsLoop t es rules acc h = Inr (kept, h') \<Longrightarrow>
     length h' = length h \<and> (\<forall>a. Obj a \<notin> set rules \<longrightarrow> h' ! a = h ! a)"
proof (induction es arbitrary: acc h)
  case Nil
  then show ?case by simp
next
  case (Cons e es)
  then obtain ig h1 where s: "isIgnored t e rules h = Inr (ig, h1)"
    by (auto split: sum.splits)
  with Cons.prems have
    "finalErrorsLoop t es rules (if ig then acc else acc @ [e]) h1 = Inr (kept, h')"
    by simp
  from Cons.IH [OF this] isIgnored_length [OF s] isIgnored_frame [OF s]
  show ?case by simp
qed

lemma sameEffect_Cons:
  "sameEffect rs1 rs2 g1 g2 g1' g2' \<Longrightarrow> sameEffect (v1 # rs1) (v2 # rs2) g1 g2 g1' g2'"
  unfolding sameEffect_def by (metis length_Cons not_less_eq nth_Cons_Suc)

lemma sameEffect_head:
  "sameEffect (Obj a1 # rs1) (Obj a2 # rs2) g1 g2 (g1[a1 := x]) (g2[a2 := x])"
proof -
  have "0 < length (Obj a1 # rs1) \<and> (Obj a1 # rs1) ! 0 = Obj a1 \<and> (Obj a2 # rs2) ! 0 = Obj a2
      \<and> g1[a1 := x] = g1[a1 := x] \<and> g2[a2 := x] = g2[a2 := x]"
    by simp
  then show ?thesis unfolding sameEffect_def by blast
qed

lemma sameEffect_refl: "sameEffect rs1 rs2 g1 g2 g1 g2"
  by (simp add: sameEffect_def)

lemma sim_isIgnored:
  assumes "list_all2 (sameRule g1 g2) rs1 rs2"
  shows "(isIgnored t e rs1 g1 = Inl x \<longrightarrow> isIgnored t e rs2 g2 = Inl x) \<and>
         (isIgnored t e rs1 g1 = Inr (b, g1') \<longrightarrow>
            (\<exists>g2'. isIgnored t e rs2 g2 = Inr (b, g2') \<and> sameEffect rs1 rs2 g1 g2 g1' g2'))"
  using assms
proof (induction rs1 rs2 rule: list_all2_induct)
  case Nil
  show ?case by (simp add: sameEffect_refl)
next
  case (Cons v1 rs1 v2 rs2)
  from Cons.IH have ih1: "isIgnored t e rs1 g1 = Inl x \<Longrightarrow> isIgnored t e rs2 g2 = Inl x"
    and ih2: "isIgnored t e rs1 g1 = Inr (b, g1') \<Longrightarrow>
       \<exists>g2'. isIgnored t e rs2 g2 = Inr (b, g2') \<and> sameEffect (v1 # rs1) (v2 # rs2) g1 g2 g1' g2'"
    by (auto intro: sameEffect_Cons)
  show ?case
  proof (cases v1)
    case Undefined
    with Cons.hyps(1) have "v2 = Undefined" by (cases v2) simp_all
    with Undefined ih1 ih2 show ?thesis by simp
  next
    case (Str s)
    with Cons.hyps(1) have "v2 = Str s" by (cases v2) simp_all
    with Str ih1 ih2 show ?thesis by (auto simp: sameEffect_refl)
  next
    case (Re r)
    with Cons.hyps(1) have "v2 = Re r" by (cases v2) simp_all
    with Re ih1 ih2 show ?thesis by (auto simp: sameEffect_refl)
  next
    case (Invalid s)
    with Cons.hyps(1) have "v2 = Invalid s" by (cases v2) simp_all
    with Invalid show ?thesis by simp
  next
    case (Obj a1)
    with Cons.hyps(1) obtain a2 where v2: "v2 = Obj a2" and same: "g1 ! a1 = g2 ! a2"
      by (cases v2) simp_all
    show ?thesis
      using ih1 ih2 same sameEffect_head [of a1 rs1 a2 rs2 g1 g2]
      unfolding Obj v2
      by (auto simp: Let_def sameEffect_refl split: option.splits)
  qed
qed


lemma distinctRefs_nth:
  assumes "distinctRefs rs" and "i < length rs" and "j < length rs"
    and "rs ! i = Obj a" and "rs ! j = Obj a"
  shows "i = j"
  using assms
proof (induction rs arbitrary: i j)
  case Nil
  then show ?case by simp
next
  case (Cons v rs)
  have tl: "distinctRefs rs" using Cons.prems(1)
    by (cases v) (simp_all add: distinctRefs_def)
  have notin: "v = Obj a \<Longrightarrow> Obj a \<notin> set rs" using Cons.prems(1)
    by (auto simp: distinctRefs_def)
  show ?case
  proof (cases i)
    case 0
    show ?thesis
    proof (cases j)
      case 0
      with \<open>i = 0\<close> show ?thesis by simp
    next
      case (Suc j')
      with Cons.prems 0 notin nth_mem [of j' rs] show ?thesis by auto
    qed
  next
    case (Suc i')
    show ?thesis
    proof (cases j)
      case 0
      with Cons.prems Suc notin nth_mem [of i' rs] show ?thesis by auto
    next
      case (Suc j')
      with Cons.prems \<open>i = Suc i'\<close> Cons.IH [OF tl, of i' j'] show ?thesis by simp
    qed
  qed
qed

lemma sameEffect_keeps:
  assumes rel: "list_all2 (sameRule g1 g2) rs1 rs2"
    and d1: "distinctRefs rs1" and d2: "distinctRefs rs2"
    and eff: "sameEffect rs1 rs2 g1 g2 g1' g2'"
  shows "list_all2 (sameRule g1' g2') rs1 rs2"
proof (cases "g1' = g1 \<and> g2' = g2")
  case True
  with rel show ?thesis by simp
next
  case False
  with eff obtain i a1 a2 x where i: "i < length rs1"
    and r1: "rs1 ! i = Obj a1" and r2: "rs2 ! i = Obj a2"
    and g1': "g1' = g1[a1 := x]" and g2': "g2' = g2[a2 := x]"
    unfolding sameEffect_def by blast
  from rel have len: "length rs1 = length rs2" by (rule list_all2_lengthD)
  show ?thesis
  proof (rule list_all2_all_nthI [OF len])
    fix j assume j: "j < length rs1"
    from rel j have sj: "sameRule g1 g2 (rs1 ! j) (rs2 ! j)" by (rule list_all2_nthD)
    from rel i have si: "sameRule g1 g2 (rs1 ! i) (rs2 ! i)" by (rule list_all2_nthD)
    show "sameRule g1' g2' (rs1 ! j) (rs2 ! j)"
    proof (cases "rs1 ! j")
      case (Obj b1)
      with sj obtain b2 where b2: "rs2 ! j = Obj b2"
        and range: "b1 < length g1" "b2 < length g2" and eq: "g1 ! b1 = g2 ! b2"
        by (cases "rs2 ! j") simp_all
      show ?thesis
      proof (cases "j = i")
        case True
        with Obj b2 r1 r2 range show ?thesis by (simp add: g1' g2')
      next
        case False
        with distinctRefs_nth [OF d1 i j r1] Obj have "b1 \<noteq> a1" by auto
        moreover from False distinctRefs_nth [OF d2 _ _ r2, of j] b2 i j len
        have "b2 \<noteq> a2" by auto
        ultimately show ?thesis using Obj b2 range eq by (simp add: g1' g2')
      qed
    next
      case Undefined
      with sj show ?thesis by (cases "rs2 ! j") simp_all
    next
      case (Str s)
      with sj show ?thesis by (cases "rs2 ! j") simp_all
    next
      case (Re r)
      with sj show ?thesis by (cases "rs2 ! j") simp_all
    next
      case (Invalid s)
      with sj show ?thesis by (cases "rs2 ! j") simp_all
    qed
  qed
qed

lemma sim_finalErrorsLoop:
  assumes d1: "distinctRefs rs1" and d2: "distinctRefs rs2"
  shows "list_all2 (sameRule g1 g2) rs1 rs2 \<Longrightarrow>
     finalErrorsLoop t es rs1 acc g1 = Inr (kept, g1') \<Longrightarrow>
     \<exists>g2'. finalErrorsLoop t es rs2 acc g2 = Inr (kept, g2')"
proof (induction es arbitrary: acc g1 g2)
  case Nil
  then show ?case by simp
next
  case (Cons e es)
  from Cons.prems(2) obtain ig h1 where s: "isIgnored t e rs1 g1 = Inr (ig, h1)"
    by (auto split: sum.splits)
  with Cons.prems(2) have run:
    "finalErrorsLoop t es rs1 (if ig then acc else acc @ [e]) h1 = Inr (kept, g1')"
    by simp
  from sim_isIgnored [OF Cons.prems(1), of t e _ ig h1] s obtain h2 where
    s2: "isIgnored t e rs2 g2 = Inr (ig, h2)" and eff: "sameEffect rs1 rs2 g1 g2 h1 h2"
    by blast
  from sameEffect_keeps [OF Cons.prems(1) d1 d2 eff]
  have "list_all2 (sameRule h1 h2) rs1 rs2" .
  from Cons.IH [OF this run] s2 show ?case by simp
qed


lemma refs_set: "a \<in> set [a. Obj a \<leftarrow> rs] \<longleftrightarrow> Obj a \<in> set rs"
proof (induction rs)
  case Nil
  show ?case by simp
next
  case (Cons v rs)
  then show ?case by (cases v) auto
qed

lemma shallowCopies_distinctRefs:
  "shallowCopies vs h = (vs', h') \<Longrightarrow> distinctRefs vs'"
proof (induction vs h arbitrary: vs' h' rule: shallowCopies.induct)
  case (1 h)
  then show ?case by (simp add: distinctRefs_def)
next
  case (2 b vs h)
  obtain ws g where r: "shallowCopies vs (h @ [h ! b]) = (ws, g)" by force
  with 2 have vs': "vs' = Obj (length h) # ws" by simp
  have "Obj (length h) \<notin> set ws" using shallowCopies_fresh [OF r] by fastforce
  with "2.IH" [OF r] show ?case by (simp add: vs' distinctRefs_def refs_set)
next
  case (3 r vs h)
  obtain ws g where r: "shallowCopies vs (h @ [emptyObj]) = (ws, g)" by force
  with 3 have vs': "vs' = Obj (length h) # ws" by simp
  have "Obj (length h) \<notin> set ws" using shallowCopies_fresh [OF r] by fastforce
  with "3.IH" [OF r] show ?case by (simp add: vs' distinctRefs_def refs_set)
next
  case (4 vs h)
  obtain ws g where r: "shallowCopies vs h = (ws, g)" by force
  with 4 show ?case by (auto simp: distinctRefs_def)
next
  case (5 s vs h)
  obtain ws g where r: "shallowCopies vs h = (ws, g)" by force
  with 5 show ?case by (auto simp: distinctRefs_def)
next
  case (6 s vs h)
  obtain ws g where r: "shallowCopies vs h = (ws, g)" by force
  with 6 show ?case by (auto simp: distinctRefs_def)
qed

lemma shallowCopies_same:
  "(\<forall>a. Obj a \<in> set vs \<longrightarrow> a < length h \<and> a < length g \<and> g ! a = h ! a) \<Longrightarrow>
   shallowCopies vs h = (rs1, g1) \<Longrightarrow> shallowCopies vs g = (rs2, g2) \<Longrightarrow>
   list_all2 (sameRule g1 g2) rs1 rs2"
proof (induction vs h arbitrary: g rs1 g1 rs2 g2 rule: shallowCopies.induct)
  case (1 h)
  then show ?case by simp
next
  case (2 b vs h)
  obtain ws1 k1 where c1: "shallowCopies vs (h @ [h ! b]) = (ws1, k1)" by force
  obtain ws2 k2 where c2: "shallowCopies vs (g @ [g ! b]) = (ws2, k2)" by force
  from 2 c1 c2 have eqs: "rs1 = Obj (length h) # ws1" "g1 = k1" "rs2 = Obj (length g) # ws2" "g2 = k2"
    by simp_all
  from "2.prems"(1) have b: "b < length h" "b < length g" "g ! b = h ! b" by simp_all
  have agree: "\<forall>a. Obj a \<in> set vs \<longrightarrow>
      a < length (h @ [h ! b]) \<and> a < length (g @ [g ! b]) \<and> (g @ [g ! b]) ! a = (h @ [h ! b]) ! a"
    using "2.prems"(1) by (auto simp: nth_append)
  from "2.IH" [OF agree c1 c2] have tl: "list_all2 (sameRule k1 k2) ws1 ws2" .
  from shallowCopies_grows [OF c1] obtain e1 where k1: "k1 = (h @ [h ! b]) @ e1" by blast
  from shallowCopies_grows [OF c2] obtain e2 where k2: "k2 = (g @ [g ! b]) @ e2" by blast
  have "sameRule k1 k2 (Obj (length h)) (Obj (length g))"
    using b by (simp add: k1 k2 nth_append)
  with tl show ?case by (simp add: eqs)
next
  case (3 r vs h)
  obtain ws1 k1 where c1: "shallowCopies vs (h @ [emptyObj]) = (ws1, k1)" by force
  obtain ws2 k2 where c2: "shallowCopies vs (g @ [emptyObj]) = (ws2, k2)" by force
  from 3 c1 c2 have eqs: "rs1 = Obj (length h) # ws1" "g1 = k1" "rs2 = Obj (length g) # ws2" "g2 = k2"
    by simp_all
  have agree: "\<forall>a. Obj a \<in> set vs \<longrightarrow>
      a < length (h @ [emptyObj]) \<and> a < length (g @ [emptyObj]) \<and>
      (g @ [emptyObj]) ! a = (h @ [emptyObj]) ! a"
    using "3.prems"(1) by (auto simp: nth_append)
  from "3.IH" [OF agree c1 c2] have tl: "list_all2 (sameRule k1 k2) ws1 ws2" .
  from shallowCopies_grows [OF c1] obtain e1 where k1: "k1 = (h @ [emptyObj]) @ e1" by blast
  from shallowCopies_grows [OF c2] obtain e2 where k2: "k2 = (g @ [emptyObj]) @ e2" by blast
  have "sameRule k1 k2 (Obj (length h)) (Obj (length g))"
    by (simp add: k1 k2 nth_append)
  with tl show ?case by (simp add: eqs)
next
  case (4 vs h)
  obtain ws1 k1 where c1: "shallowCopies vs h = (ws1, k1)" by force
  obtain ws2 k2 where c2: "shallowCopies vs g = (ws2, k2)" by force
  from "4.IH" [OF _ c1 c2] "4.prems" c1 c2 show ?case by auto
next
  case (5 s vs h)
  obtain ws1 k1 where c1: "shallowCopies vs h = (ws1, k1)" by force
  obtain ws2 k2 where c2: "shallowCopies vs g = (ws2, k2)" by force
  from "5.IH" [OF _ c1 c2] "5.prems" c1 c2 show ?case by auto
next
  case (6 s vs h)
  obtain ws1 k1 where c1: "shallowCopies vs h = (ws1, k1)" by force
  obtain ws2 k2 where c2: "shallowCopies vs g = (ws2, k2)" by force
  from "6.IH" [OF _ c1 c2] "6.prems" c1 c2 show ?case by auto
qed

lemma appliesToFile_same:
  "(\<forall>a. v = Obj a \<longrightarrow> g ! a = h ! a) \<Longrightarrow>
     appliesToFile originalFilePath g v = appliesToFile originalFilePath h v"
  by (cases v) simp_all

lemma filter_unfold:
  "getErrorsToIgnore rd pathOf configFile = Inr ignoreErrors \<Longrightarrow>
   matchingErrors originalFilePath ignoreErrors h = (rules, h1) \<Longrightarrow>
   filterBaselineErrorsForFile rd pathOf t configFile originalFilePath errors h
     = finalErrorsLoop t errors rules [] h1"
  by (simp add: filterBaselineErrorsForFile_def)

lemma later_pass_same_result:
  assumes cfg: "getErrorsToIgnore rd pathOf configFile = Inr ignoreErrors"
    and wf: "\<forall>a. Obj a \<in> set ignoreErrors \<longrightarrow> a < length h"
    and agree: "take (length h) g = h"
    and run: "filterBaselineErrorsForFile rd pathOf t configFile originalFilePath errors h
        = Inr (kept, h')"
  shows "\<exists>g'. filterBaselineErrorsForFile rd pathOf t configFile originalFilePath errors g
        = Inr (kept, g')"
proof -
  let ?vs = "filter (appliesToFile originalFilePath h) ignoreErrors"
  have same: "\<And>a. a < length h \<Longrightarrow> a < length g \<and> g ! a = h ! a"
  proof -
    fix a assume a: "a < length h"
    have "length (take (length h) g) = length h" using agree by simp
    then have "length h \<le> length g" by simp
    moreover have "g ! a = take (length h) g ! a" using a by simp
    ultimately show "a < length g \<and> g ! a = h ! a" using a agree by simp
  qed
  have flt: "filter (appliesToFile originalFilePath g) ignoreErrors = ?vs"
    by (rule filter_cong) (auto intro!: appliesToFile_same dest: wf [rule_format] same)
  obtain rs1 g1 where c1: "shallowCopies ?vs h = (rs1, g1)" by force
  obtain rs2 g2 where c2: "shallowCopies ?vs g = (rs2, g2)" by force
  have ag: "\<forall>a. Obj a \<in> set ?vs \<longrightarrow> a < length h \<and> a < length g \<and> g ! a = h ! a"
    using wf same by auto
  from shallowCopies_same [OF ag c1 c2] have rel: "list_all2 (sameRule g1 g2) rs1 rs2" .
  from c1 have m1: "matchingErrors originalFilePath ignoreErrors h = (rs1, g1)"
    by (simp add: matchingErrors_def)
  from c2 flt have m2: "matchingErrors originalFilePath ignoreErrors g = (rs2, g2)"
    by (simp add: matchingErrors_def)
  from run have loop: "finalErrorsLoop t errors rs1 [] g1 = Inr (kept, h')"
    by (simp add: filter_unfold [OF cfg m1])
  from sim_finalErrorsLoop [OF shallowCopies_distinctRefs [OF c1]
      shallowCopies_distinctRefs [OF c2] rel loop]
  obtain g' where "finalErrorsLoop t errors rs2 [] g2 = Inr (kept, g')" by blast
  then show ?thesis by (simp add: filter_unfold [OF cfg m2])
qed

text \<open>
  \<open>isIgnored\<close> returns true exactly when one of the rules suppresses the diagnostic, and
  at most one rule does.
\<close>

lemma suppressedBy_snoc:
  "i < length xs \<Longrightarrow> suppressedBy t e (xs @ [x]) i h = suppressedBy t e xs i h"
  by (simp add: suppressedBy_def reachesRule_def nth_append)

lemma isIgnored_iff_suppressedBy:
  "isIgnored t e rules h = Inr (ig, h') \<Longrightarrow>
     ig \<longleftrightarrow> (\<exists>i < length rules. suppressedBy t e rules i h)"
proof (induction rules arbitrary: ig h' rule: rev_induct)
  case Nil
  then show ?case by simp
next
  case (snoc x xs)
  from snoc.prems obtain b h1 where xs: "isIgnored t e xs h = Inr (b, h1)"
    by (auto simp: isIgnored_append split: sum.splits)
  from snoc.IH [OF xs] have ih: "b \<longleftrightarrow> (\<exists>i < length xs. suppressedBy t e xs i h)" .
  show ?case
  proof (cases b)
    case True
    with snoc.prems xs have "ig" by (simp add: isIgnored_append)
    moreover from True ih obtain i where "i < length xs" "suppressedBy t e xs i h" by blast
    then have "i < length (xs @ [x])" "suppressedBy t e (xs @ [x]) i h"
      by (simp_all add: suppressedBy_snoc)
    ultimately show ?thesis by blast
  next
    case False
    with snoc.prems xs have last: "isIgnored t e [x] h = Inr (ig, h')"
      by (simp add: isIgnored_append)
    from False xs have reach: "reachesRule t e (xs @ [x]) (length xs) h"
      by (simp add: reachesRule_def)
    from last reach have at_end: "suppressedBy t e (xs @ [x]) (length xs) h \<longleftrightarrow> ig"
      by (simp add: suppressedBy_def)
    from False ih have none: "\<And>i. i < length xs \<Longrightarrow> \<not> suppressedBy t e (xs @ [x]) i h"
      by (simp add: suppressedBy_snoc)
    show ?thesis
    proof
      assume ig
      with at_end show "\<exists>i<length (xs @ [x]). suppressedBy t e (xs @ [x]) i h" by auto
    next
      assume "\<exists>i<length (xs @ [x]). suppressedBy t e (xs @ [x]) i h"
      then obtain i where i: "i < length (xs @ [x])" "suppressedBy t e (xs @ [x]) i h" by blast
      with none have "i = length xs" by (cases "i < length xs") auto
      with i at_end show ig by simp
    qed
  qed
qed

lemma suppressedBy_unique:
  assumes "suppressedBy t e rules i h" and "suppressedBy t e rules j h"
    and "i < length rules" and "j < length rules"
  shows "i = j"
proof -
  have one: "\<not> reachesRule t e rules j h"
    if lt: "i < j" and si: "suppressedBy t e rules i h" and j: "j \<le> length rules"
    for i j
  proof -
    from lt j have i: "i < length rules" by simp
    have "i < length (take j rules)" using lt j by simp
    from id_take_nth_drop [OF this]
    have tk: "take j rules = take i rules @ rules ! i # drop (Suc i) (take j rules)"
      using lt by (simp add: min_def)
    from si obtain g where a: "isIgnored t e (take i rules) h = Inr (False, g)"
      by (auto simp: suppressedBy_def reachesRule_def split: sum.splits)
    from si obtain g' where b: "isIgnored t e [rules ! i] h = Inr (True, g')"
      by (auto simp: suppressedBy_def split: sum.splits)
    have "isIgnored t e ([rules ! i] @ drop (Suc i) (take j rules)) h = Inr (True, g')"
      using b by (simp only: isIgnored_append) simp
    then have "isIgnored t e (take j rules) h = Inr (True, g')"
      using a by (subst tk) (simp add: isIgnored_append [of t e "take i rules"])
    then show ?thesis by (simp add: reachesRule_def)
  qed
  show ?thesis
  proof (rule ccontr)
    assume "i \<noteq> j"
    then consider "i < j" | "j < i" by linarith
    then show False
    proof cases
      case 1
      from one [OF 1 assms(1)] assms(2,4) show False by (simp add: suppressedBy_def)
    next
      case 2
      from one [OF 2 assms(2)] assms(1,3) show False by (simp add: suppressedBy_def)
    qed
  qed
qed

text \<open>
  The filter returns a list when no entry of \<open>ignoreErrors\<close> is a \<open>RegExp\<close> and every
  rule object has a \<open>message\<close>. An entry that is a \<open>RegExp\<close> is copied to an empty
  object, and the first diagnostic that reaches the copy makes \<open>isIgnored\<close> throw.
\<close>

lemma isIgnored_message:
  "isIgnored t e rs h = Inr (b, h') \<Longrightarrow> message (h' ! a) = message (h ! a)"
proof (induction t e rs h rule: isIgnored.induct)
  case (4 t e a0 rs h)
  have upd: "message (h[a0 := (h ! a0)\<lparr>count := c\<rparr>] ! a) = message (h ! a)" for c
    by (cases "a = a0"; cases "a0 < length h") (simp_all add: list_update_beyond)
  from 4 show ?case
    by (auto simp: Let_def upd split: if_splits option.splits)
qed (auto split: if_splits)

lemma isIgnored_returns:
  "(\<forall>a. Obj a \<in> set rs \<longrightarrow> message (h ! a) \<noteq> None) \<Longrightarrow> (\<forall>s. Invalid s \<notin> set rs) \<Longrightarrow>
     \<exists>b h'. isIgnored t e rs h = Inr (b, h')"
  by (induction t e rs h rule: isIgnored.induct) (auto simp: Let_def split: option.splits)

lemma finalErrorsLoop_returns:
  "(\<forall>a. Obj a \<in> set rs \<longrightarrow> message (h ! a) \<noteq> None) \<Longrightarrow> (\<forall>s. Invalid s \<notin> set rs) \<Longrightarrow>
     \<exists>kept h'. finalErrorsLoop t es rs acc h = Inr (kept, h')"
proof (induction es arbitrary: acc h)
  case Nil
  show ?case by simp
next
  case (Cons e es)
  from isIgnored_returns [OF Cons.prems, of t e] obtain b h1 where
    s: "isIgnored t e rs h = Inr (b, h1)" by blast
  have "\<forall>a. Obj a \<in> set rs \<longrightarrow> message (h1 ! a) \<noteq> None"
    using Cons.prems(1) isIgnored_message [OF s] by simp
  from Cons.IH [OF this Cons.prems(2), of "if b then acc else acc @ [e]"] s
  show ?case by simp
qed

lemma shallowCopies_messages:
  "(\<forall>a. Obj a \<in> set vs \<longrightarrow> a < length h \<and> message (h ! a) \<noteq> None) \<Longrightarrow>
   (\<forall>r. Re r \<notin> set vs) \<Longrightarrow> (\<forall>s. Invalid s \<notin> set vs) \<Longrightarrow>
   shallowCopies vs h = (rs, h1) \<Longrightarrow>
   (\<forall>a. Obj a \<in> set rs \<longrightarrow> message (h1 ! a) \<noteq> None) \<and> (\<forall>s. Invalid s \<notin> set rs)"
proof (induction vs h arbitrary: rs h1 rule: shallowCopies.induct)
  case (1 h)
  then show ?case by simp
next
  case (2 b vs h)
  obtain ws k where c: "shallowCopies vs (h @ [h ! b]) = (ws, k)" by force
  with 2 have eqs: "rs = Obj (length h) # ws" "h1 = k" by simp_all
  have pre: "\<forall>a. Obj a \<in> set vs \<longrightarrow>
      a < length (h @ [h ! b]) \<and> message ((h @ [h ! b]) ! a) \<noteq> None"
    using "2.prems"(1) by (auto simp: nth_append)
  from "2.IH" [OF pre _ _ c] "2.prems"(2,3)
  have tl: "(\<forall>a. Obj a \<in> set ws \<longrightarrow> message (k ! a) \<noteq> None) \<and> (\<forall>s. Invalid s \<notin> set ws)"
    by simp
  from shallowCopies_grows [OF c] obtain ext where k: "k = (h @ [h ! b]) @ ext" by blast
  have "message (k ! length h) \<noteq> None" using "2.prems"(1) by (simp add: k nth_append)
  with tl show ?case by (auto simp: eqs)
next
  case (3 r vs h)
  from "3.prems"(2) have False by auto
  then show ?case ..
next
  case (4 vs h)
  obtain ws k where c: "shallowCopies vs h = (ws, k)" by force
  from "4.IH" [OF _ _ _ c] "4.prems" c show ?case by auto
next
  case (5 s vs h)
  obtain ws k where c: "shallowCopies vs h = (ws, k)" by force
  from "5.IH" [OF _ _ _ c] "5.prems" c show ?case by auto
next
  case (6 s vs h)
  from "6.prems"(3) have False by auto
  then show ?case ..
qed

lemma filter_returns:
  assumes cfg: "getErrorsToIgnore rd pathOf configFile = Inr ignoreErrors"
    and objs: "\<forall>a. Obj a \<in> set ignoreErrors \<longrightarrow> a < length h \<and> message (h ! a) \<noteq> None"
    and nore: "\<forall>r. Re r \<notin> set ignoreErrors"
  shows "\<exists>kept h'.
     filterBaselineErrorsForFile rd pathOf t configFile originalFilePath errors h = Inr (kept, h')"
proof -
  let ?vs = "filter (appliesToFile originalFilePath h) ignoreErrors"
  obtain rs h1 where c: "shallowCopies ?vs h = (rs, h1)" by force
  then have me: "matchingErrors originalFilePath ignoreErrors h = (rs, h1)"
    by (simp add: matchingErrors_def)
  have a: "\<forall>a. Obj a \<in> set ?vs \<longrightarrow> a < length h \<and> message (h ! a) \<noteq> None"
    using objs by simp
  have b: "\<forall>r. Re r \<notin> set ?vs" using nore by simp
  have i: "\<forall>s. Invalid s \<notin> set ?vs" by simp
  from shallowCopies_messages [OF a b i c] finalErrorsLoop_returns [of rs h1 t errors "[]"]
  show ?thesis by (simp add: filter_unfold [OF cfg me])
qed

lemma regexp_rule_throws:
  "filterBaselineErrorsForFile (ex_config [Re (js ''Undefined'')]) ex_pathOf prefix
     (Some (js ''phpstan.neon'')) (js ''src/a.php'') [ex_diag 1] [] = Inl TypeError"
  by code_simp

lemma path_scoped_rule_not_applicable:
  assumes "path (h ! a) = Some p" and "p \<noteq> []"
    and "\<not> str_includes originalFilePath p"
    and "\<forall>ps q. paths (h ! a) = Some ps \<longrightarrow> q \<in> set ps \<longrightarrow> \<not> str_includes originalFilePath q"
  shows "\<not> appliesToFile originalFilePath h (Obj a)"
  using assms by (auto simp: Let_def falsy_def list_ex_iff split: option.splits)

subsection \<open>Path scoping\<close>

text \<open>
  C1. A rule that is scoped by \<open>paths\<close> and has no \<open>path\<close> passes the test
  \<open>!error.path && !error.path\<close> and is applied to every file: here the rule is scoped
  to \<open>src/a\<close>, the file is \<open>lib/b.php\<close>, and the diagnostic is suppressed all the same.
\<close>

theorem paths_only_rule_suppresses_elsewhere:
  "\<not> list_ex (str_includes (js ''lib/b.php'')) [js ''src/a''] \<and>
   filterBaselineErrorsForFile (ex_config [Obj 0]) ex_pathOf prefix (Some (js ''phpstan.neon''))
       (js ''lib/b.php'') [ex_diag 1] [ex_paths_rule]
     = Inr ([], [ex_paths_rule, ex_paths_rule])"
  by code_simp

subsection \<open>Quotas\<close>

text \<open>
  C2. In one call of \<open>filterBaselineErrorsForFile\<close>, take a rule object among the rules
  that apply to the file (rule \<open>i\<close> of \<open>matchingErrors\<close>) with \<open>count\<close> \<open>N > 0\<close> and
  message matcher \<open>m\<close>. The number of diagnostics that this rule suppresses is the minimum
  of \<open>N\<close> and the number of diagnostics whose scan reaches the rule and whose message
  \<open>m\<close> matches; and the rule's \<open>count\<close> is, at the end, \<open>N\<close> less one for each
  diagnostic it suppressed.
\<close>

theorem quota_suppresses_min:
  assumes cfg: "getErrorsToIgnore rd pathOf configFile = Inr ignoreErrors"
    and me: "matchingErrors originalFilePath ignoreErrors h = (rules, h1)"
    and i: "i < length rules" and ri: "rules ! i = Obj a"
    and cnt: "count (h1 ! a) = Some N" and N: "0 < N"
    and msg: "message (h1 ! a) = Some m"
    and run: "filterBaselineErrorsForFile rd pathOf t configFile originalFilePath errors h
        = Inr (kept, h')"
  shows "int (suppressedCount t errors rules i h1) = min N (int (matchCount t errors rules i m h1))
       \<and> count (h' ! a) = Some (N - int (suppressedCount t errors rules i h1))"
proof -
  from me have sc:
    "shallowCopies (filter (appliesToFile originalFilePath h) ignoreErrors) h = (rules, h1)"
    by (simp add: matchingErrors_def)
  have rules: "rules = take i rules @ Obj a # drop (Suc i) rules"
    using i ri id_take_nth_drop by fastforce
  have len: "length (take i rules) = i" using i by simp
  from shallowCopies_distinct [OF sc i ri]
  have d1: "Obj a \<notin> set (take i rules)" and d2: "Obj a \<notin> set (drop (Suc i) rules)" by simp_all
  have "Obj a \<in> set rules" using i ri nth_mem by fastforce
  with shallowCopies_fresh [OF sc] have a: "a < length h1" by simp
  from run have loop: "finalErrorsLoop t errors rules [] h1 = Inr (kept, h')"
    by (simp add: filter_unfold [OF cfg me])
  from N have N0: "0 \<le> N" by simp
  from quota_general [OF rules d1 d2 a cnt N0 msg loop] show ?thesis
    unfolding len .
qed

theorem quota_suppresses_min_witness:
  "getErrorsToIgnore (ex_config [Obj 0]) ex_pathOf (Some (js ''phpstan.neon'')) = Inr [Obj 0] \<and>
   matchingErrors (js ''src/a.php'') [Obj 0] [ex_rule] = ([Obj 1], [ex_rule, ex_rule]) \<and>
   filterBaselineErrorsForFile (ex_config [Obj 0]) ex_pathOf prefix (Some (js ''phpstan.neon''))
       (js ''src/a.php'') [ex_diag 1, ex_diag 2] [ex_rule]
     = Inr ([ex_diag 2], [ex_rule, ex_rule\<lparr>count := Some 0\<rparr>]) \<and>
   suppressedCount prefix [ex_diag 1, ex_diag 2] [Obj 1] 0 [ex_rule, ex_rule] = 1 \<and>
   matchCount prefix [ex_diag 1, ex_diag 2] [Obj 1] 0 (MString (js ''Undefined variable''))
     [ex_rule, ex_rule] = 2 \<and>
   count ([ex_rule, ex_rule\<lparr>count := Some 0\<rparr>] ! 1) = Some (1 - 1)"
proof -
  have cfg: "getErrorsToIgnore (ex_config [Obj 0]) ex_pathOf (Some (js ''phpstan.neon''))
      = Inr [Obj 0]"
    by code_simp
  have me: "matchingErrors (js ''src/a.php'') [Obj 0] [ex_rule] = ([Obj 1], [ex_rule, ex_rule])"
    by code_simp
  have run: "filterBaselineErrorsForFile (ex_config [Obj 0]) ex_pathOf prefix
      (Some (js ''phpstan.neon'')) (js ''src/a.php'') [ex_diag 1, ex_diag 2] [ex_rule]
      = Inr ([ex_diag 2], [ex_rule, ex_rule\<lparr>count := Some 0\<rparr>])"
    by code_simp
  have i: "0 < length [Obj 1 :: jsstring jsval]" by simp
  have ri: "[Obj 1 :: jsstring jsval] ! 0 = Obj 1" by simp
  have cnt: "count ([ex_rule, ex_rule] ! 1) = Some 1" by (simp add: ex_rule_def)
  have msg: "message ([ex_rule, ex_rule] ! 1) = Some (MString (js ''Undefined variable''))"
    by (simp add: ex_rule_def)
  have sc: "suppressedCount prefix [ex_diag 1, ex_diag 2] [Obj 1] 0 [ex_rule, ex_rule] = 1"
    by code_simp
  have mc: "matchCount prefix [ex_diag 1, ex_diag 2] [Obj 1] 0
      (MString (js ''Undefined variable'')) [ex_rule, ex_rule] = 2"
    by code_simp
  from quota_suppresses_min [OF cfg me i ri cnt _ msg run] cfg me run sc mc
  show ?thesis by simp
qed

text \<open>
  C3. A rule object whose \<open>count\<close> is 0 suppresses no diagnostic, whether or not its
  matcher matches the message: \<open>isIgnored\<close> passes over it, and a whole pass of the loop
  gives the result (diagnostics kept, store, or error) that it gives without the rule.
\<close>

theorem zero_count_rule_inert:
  assumes "count (h ! a) = Some 0"
  shows "\<not> suppressedBy t e (pre @ Obj a # post) (length pre) h
       \<and> isIgnored t e (pre @ Obj a # post) h = isIgnored t e (pre @ post) h
       \<and> finalErrorsLoop t es (pre @ Obj a # post) acc h
           = finalErrorsLoop t es (pre @ post) acc h"
proof -
  have "\<not> suppressedBy t e (pre @ Obj a # post) (length pre) h"
    using assms by (simp add: suppressedBy_def Let_def)
  with assms show ?thesis
    by (simp add: isIgnored_skip_zero finalErrorsLoop_skip_zero)
qed

theorem zero_count_rule_inert_witness:
  "count ([ex_rule\<lparr>count := Some 0\<rparr>] ! 0) = Some 0 \<and>
   matchesStringOrRegexp prefix (diag_message (ex_diag 1)) (MString (js ''Undefined variable'')) \<and>
   \<not> suppressedBy prefix (ex_diag 1) [Obj 0] 0 [ex_rule\<lparr>count := Some 0\<rparr>] \<and>
   isIgnored prefix (ex_diag 1) [Obj 0] [ex_rule\<lparr>count := Some 0\<rparr>]
     = Inr (False, [ex_rule\<lparr>count := Some 0\<rparr>]) \<and>
   finalErrorsLoop prefix [ex_diag 1, ex_diag 2] [Obj 0] [] [ex_rule\<lparr>count := Some 0\<rparr>]
     = Inr ([ex_diag 1, ex_diag 2], [ex_rule\<lparr>count := Some 0\<rparr>])"
proof -
  have c: "count ([ex_rule\<lparr>count := Some 0\<rparr>] ! 0) = Some 0" by simp
  have m: "matchesStringOrRegexp prefix (diag_message (ex_diag 1))
      (MString (js ''Undefined variable''))"
    by code_simp
  from zero_count_rule_inert [OF c, of prefix "ex_diag 1" "[]" "[]" "[ex_diag 1, ex_diag 2]" "[]"]
    c m
  show ?thesis by simp
qed

subsection \<open>The result is a subsequence of the input\<close>

text \<open>
  C4. Whatever the diagnostics, the ignore rules and the file path, the list that
  \<open>filterBaselineErrorsForFile\<close> returns is a subsequence of the diagnostics it was
  given: nothing is added, nothing is repeated, and the order is kept.
\<close>

theorem filter_result_subseq:
  assumes "filterBaselineErrorsForFile rd pathOf t configFile originalFilePath errors h
      = Inr (kept, h')"
  shows "subseq kept errors"
proof -
  from assms obtain ignoreErrors where
    cfg: "getErrorsToIgnore rd pathOf configFile = Inr ignoreErrors"
    by (auto simp: filterBaselineErrorsForFile_def split: sum.splits)
  obtain rules h1 where me: "matchingErrors originalFilePath ignoreErrors h = (rules, h1)"
    by force
  from assms have "finalErrorsLoop t errors rules [] h1 = Inr (kept, h')"
    by (simp add: filter_unfold [OF cfg me])
  from finalErrorsLoop_acc [OF this] show ?thesis by simp
qed

theorem filter_result_subseq_witness:
  "filterBaselineErrorsForFile (ex_config [Str (js ''never''), Obj 0]) ex_pathOf prefix
     (Some (js ''phpstan.neon'')) (js ''src/a.php'') [ex_diag 1, ex_diag 2, ex_diag 3] [ex_rule]
     = Inr ([ex_diag 2, ex_diag 3], [ex_rule, ex_rule\<lparr>count := Some 0\<rparr>]) \<and>
   subseq [ex_diag 2, ex_diag 3] [ex_diag 1, ex_diag 2, ex_diag 3]"
proof -
  have run: "filterBaselineErrorsForFile (ex_config [Str (js ''never''), Obj 0]) ex_pathOf prefix
     (Some (js ''phpstan.neon'')) (js ''src/a.php'') [ex_diag 1, ex_diag 2, ex_diag 3] [ex_rule]
     = Inr ([ex_diag 2, ex_diag 3], [ex_rule, ex_rule\<lparr>count := Some 0\<rparr>])"
    by code_simp
  from filter_result_subseq [OF run] run show ?thesis by simp
qed

subsection \<open>The rule objects of the configuration are not changed\<close>

text \<open>
  C6. A pass of \<open>filterBaselineErrorsForFile\<close> writes to the copies it made and to
  nothing else: every object that was in the store before the call, so every rule object
  of the resolved configuration, with its \<open>count\<close>, is the same after the call. The
  quota that one pass uses up is not taken from the configuration: a later pass over the
  same \<open>ignoreErrors\<close>, started in the store that the first pass left, keeps the same
  diagnostics.
\<close>

theorem filter_leaves_config_unchanged:
  assumes cfg: "getErrorsToIgnore rd pathOf configFile = Inr ignoreErrors"
    and wf: "\<forall>a. Obj a \<in> set ignoreErrors \<longrightarrow> a < length h"
    and run: "filterBaselineErrorsForFile rd pathOf t configFile originalFilePath errors h
        = Inr (kept, h')"
  shows "take (length h) h' = h
       \<and> (\<exists>h''. filterBaselineErrorsForFile rd pathOf t configFile originalFilePath errors h'
                 = Inr (kept, h''))"
proof -
  obtain rules h1 where me: "matchingErrors originalFilePath ignoreErrors h = (rules, h1)"
    by force
  then have sc:
    "shallowCopies (filter (appliesToFile originalFilePath h) ignoreErrors) h = (rules, h1)"
    by (simp add: matchingErrors_def)
  from shallowCopies_grows [OF sc] obtain ext where h1: "h1 = h @ ext" by blast
  from run have loop: "finalErrorsLoop t errors rules [] h1 = Inr (kept, h')"
    by (simp add: filter_unfold [OF cfg me])
  from finalErrorsLoop_frame [OF loop]
  have len: "length h' = length h1" and fr: "\<And>a. Obj a \<notin> set rules \<Longrightarrow> h' ! a = h1 ! a"
    by simp_all
  have unchanged: "take (length h) h' = h"
  proof (rule nth_equalityI)
    show "length (take (length h) h') = length h" using len h1 by simp
  next
    fix a assume "a < length (take (length h) h')"
    then have a: "a < length h" by simp
    have "Obj a \<notin> set rules" using shallowCopies_fresh [OF sc, of a] a by auto
    then have "h' ! a = h1 ! a" by (rule fr)
    with a h1 show "take (length h) h' ! a = h ! a" by (simp add: nth_append)
  qed
  from later_pass_same_result [OF cfg wf unchanged run] unchanged show ?thesis by simp
qed

theorem filter_leaves_config_unchanged_witness:
  "getErrorsToIgnore (ex_config [Obj 0]) ex_pathOf (Some (js ''phpstan.neon'')) = Inr [Obj 0] \<and>
   filterBaselineErrorsForFile (ex_config [Obj 0]) ex_pathOf prefix (Some (js ''phpstan.neon''))
       (js ''src/a.php'') [ex_diag 1, ex_diag 2] [ex_rule]
     = Inr ([ex_diag 2], [ex_rule, ex_rule\<lparr>count := Some 0\<rparr>]) \<and>
   take (length [ex_rule]) [ex_rule, ex_rule\<lparr>count := Some 0\<rparr>] = [ex_rule] \<and>
   count ([ex_rule, ex_rule\<lparr>count := Some 0\<rparr>] ! 0) = Some 1 \<and>
   filterBaselineErrorsForFile (ex_config [Obj 0]) ex_pathOf prefix (Some (js ''phpstan.neon''))
       (js ''src/a.php'') [ex_diag 1, ex_diag 2] [ex_rule, ex_rule\<lparr>count := Some 0\<rparr>]
     = Inr ([ex_diag 2],
         [ex_rule, ex_rule\<lparr>count := Some 0\<rparr>, ex_rule\<lparr>count := Some 0\<rparr>])"
proof -
  have cfg: "getErrorsToIgnore (ex_config [Obj 0]) ex_pathOf (Some (js ''phpstan.neon''))
      = Inr [Obj 0]"
    by code_simp
  have wf: "\<forall>a. Obj a \<in> set [Obj 0 :: jsstring jsval] \<longrightarrow> a < length [ex_rule]" by simp
  have run: "filterBaselineErrorsForFile (ex_config [Obj 0]) ex_pathOf prefix
      (Some (js ''phpstan.neon'')) (js ''src/a.php'') [ex_diag 1, ex_diag 2] [ex_rule]
      = Inr ([ex_diag 2], [ex_rule, ex_rule\<lparr>count := Some 0\<rparr>])"
    by code_simp
  have again: "filterBaselineErrorsForFile (ex_config [Obj 0]) ex_pathOf prefix
      (Some (js ''phpstan.neon'')) (js ''src/a.php'') [ex_diag 1, ex_diag 2]
      [ex_rule, ex_rule\<lparr>count := Some 0\<rparr>]
     = Inr ([ex_diag 2],
         [ex_rule, ex_rule\<lparr>count := Some 0\<rparr>, ex_rule\<lparr>count := Some 0\<rparr>])"
    by code_simp
  from filter_leaves_config_unchanged [OF cfg wf run] cfg run again show ?thesis
    by (simp add: ex_rule_def)
qed

section \<open>Properties of the configuration resolver\<close>

lemma rulesOf_join: "rulesOf (deepObjectJoin a b) = rulesOf a @ rulesOf b"
  by (cases "parameters_ignoreErrors a"; cases "parameters_ignoreErrors b")
     (simp_all add: rulesOf_def deepObjectJoin_def)

lemma joinIncludes_direct:
  "map (\<lambda>inc. rd (pathIn inc)) incs = map Inr docs \<Longrightarrow>
     joinIncludes rd pathIn acc incs = Inr (foldl deepObjectJoin acc docs)"
proof (induction incs arbitrary: acc docs)
  case Nil
  then show ?case by simp
next
  case (Cons inc incs)
  then obtain doc ds where docs: "docs = doc # ds" by (cases docs) auto
  with Cons.prems have "rd (pathIn inc) = Inr doc"
    and "map (\<lambda>inc. rd (pathIn inc)) incs = map Inr ds" by simp_all
  with Cons.IH [of ds "deepObjectJoin acc doc"] docs show ?case by simp
qed

lemma rulesOf_foldl:
  "rulesOf (foldl deepObjectJoin acc docs) = rulesOf acc @ concat (map rulesOf docs)"
  by (induction docs arbitrary: acc) (simp_all add: rulesOf_join)

lemma scalars_foldl:
  "scalars (foldl deepObjectJoin acc docs) = foldl (++) (scalars acc) (map scalars docs)"
  by (induction docs arbitrary: acc) (simp_all add: deepObjectJoin_def)

lemmas files_eval = ex_files_def ex_pathOf_def js_def getErrorsToIgnore_def getPHPStanConfig_def
  deepObjectJoin_def rulesOf_def

text \<open>
  C5, as stated, fails: \<open>phpstan.neon\<close> includes \<open>a.neon\<close>, which includes
  \<open>b.neon\<close>. The rule of \<open>b.neon\<close> is among the rules of the files reachable through
  includes, and it is not in the resolved \<open>ignoreErrors\<close>.
\<close>

theorem includes_of_includes_not_followed:
  "getErrorsToIgnore ex_files ex_pathOf (Some (js ''phpstan.neon''))
     = Inr [Str (js ''bar''), Str (js ''foo'')] \<and>
   (case resolveTransitively 2 ex_files ex_pathOf (js ''phpstan.neon'') of
      Inl x \<Rightarrow> Inl x | Inr file \<Rightarrow> Inr (rulesOf file))
     = Inr [Str (js ''bar''), Str (js ''foo''), Str (js ''baz'')] \<and>
   getErrorsToIgnore ex_files ex_pathOf (Some (js ''phpstan.neon''))
     \<noteq> (case resolveTransitively 2 ex_files ex_pathOf (js ''phpstan.neon'') of
          Inl x \<Rightarrow> Inl x | Inr file \<Rightarrow> Inr (rulesOf file))"
proof -
  have a: "getErrorsToIgnore ex_files ex_pathOf (Some (js ''phpstan.neon''))
     = Inr [Str (js ''bar''), Str (js ''foo'')]"
    by (simp add: files_eval)
  have b: "(case resolveTransitively 2 ex_files ex_pathOf (js ''phpstan.neon'') of
      Inl x \<Rightarrow> Inl x | Inr file \<Rightarrow> Inr (rulesOf file))
     = Inr [Str (js ''bar''), Str (js ''foo''), Str (js ''baz'')]"
    by (simp add: files_eval numeral_2_eq_2)
  show ?thesis unfolding a b by simp
qed

text \<open>
  C5, amended. The resolved configuration is the entry file merged, in order, with the
  files that its own \<open>includes\<close> name, and with no other file: the resolved
  \<open>ignoreErrors\<close> is the concatenation of the rules of the entry file and of these
  files, and a scalar key has the value of the last of them that sets it.
\<close>

theorem resolves_direct_includes:
  assumes name: "configFile \<noteq> []"
    and root: "rd configFile = Inr root"
    and incs: "cfg_includes root = Some incs"
    and docs: "map (\<lambda>inc. rd (pathOf configFile inc)) incs = map Inr docs"
  shows "getPHPStanConfig rd pathOf configFile = Inr (foldl deepObjectJoin root docs)
       \<and> getErrorsToIgnore rd pathOf (Some configFile)
           = Inr (rulesOf root @ concat (map rulesOf docs))
       \<and> scalars (foldl deepObjectJoin root docs)
           = foldl (++) (scalars root) (map scalars docs)"
proof -
  from joinIncludes_direct [of rd "pathOf configFile" incs docs root] docs root incs
  have g: "getPHPStanConfig rd pathOf configFile = Inr (foldl deepObjectJoin root docs)"
    by (simp add: getPHPStanConfig_def)
  with name show ?thesis
    by (simp add: getErrorsToIgnore_def rulesOf_foldl scalars_foldl)
qed

theorem resolves_direct_includes_witness:
  "ex_files (js ''phpstan.neon'')
     = Inr \<lparr>cfg_includes = Some [js ''a.neon''], parameters_ignoreErrors = Some [Str (js ''bar'')],
            scalars = [js ''level'' \<mapsto> js ''1'']\<rparr> \<and>
   getErrorsToIgnore ex_files ex_pathOf (Some (js ''phpstan.neon''))
     = Inr [Str (js ''bar''), Str (js ''foo'')] \<and>
   (\<exists>file. getPHPStanConfig ex_files ex_pathOf (js ''phpstan.neon'') = Inr file \<and>
      scalars file (js ''level'') = Some (js ''5''))"
proof -
  let ?root = "\<lparr>cfg_includes = Some [js ''a.neon''],
      parameters_ignoreErrors = Some [Str (js ''bar'') :: jsstring jsval],
      scalars = [js ''level'' \<mapsto> js ''1'']\<rparr>"
  let ?a = "\<lparr>cfg_includes = Some [js ''b.neon''],
      parameters_ignoreErrors = Some [Str (js ''foo'') :: jsstring jsval],
      scalars = [js ''level'' \<mapsto> js ''5'']\<rparr>"
  have name: "js ''phpstan.neon'' \<noteq> []" by (simp add: js_def)
  have root: "ex_files (js ''phpstan.neon'') = Inr ?root"
    by (simp add: ex_files_def)
  have incs: "cfg_includes ?root = Some [js ''a.neon'']" by simp
  have docs: "map (\<lambda>inc. ex_files (ex_pathOf (js ''phpstan.neon'') inc)) [js ''a.neon'']
      = map Inr [?a]"
    by (simp add: ex_files_def ex_pathOf_def js_def)
  from resolves_direct_includes [where rd = ex_files and pathOf = ex_pathOf
      and configFile = "js ''phpstan.neon''" and root = ?root and incs = "[js ''a.neon'']"
      and docs = "[?a]"] name root incs docs
  show ?thesis
    by (simp add: rulesOf_def deepObjectJoin_def)
qed

section \<open>Properties of the cached config reader\<close>

text \<open>
  For a file whose content is not empty: the first read fetches the content and registers
  a watcher; a later read returns the cached content and leaves the disk alone; after the
  watcher has fired, the next read fetches again.
\<close>

lemma cached_until_change:
  assumes "content d = Some c" and "c \<noteq> []"
  shows "read newReader d
           = (Inr c, \<lparr>cachedValue = Some c, watching = False, watcher = True\<rparr>,
              d\<lparr>listeners := Suc (listeners d), diskReads := Suc (diskReads d)\<rparr>)"
    and "read \<lparr>cachedValue = Some c, watching = False, watcher = True\<rparr> d'
           = (Inr c, \<lparr>cachedValue = Some c, watching = False, watcher = True\<rparr>, d')"
    and "0 < listeners d' \<Longrightarrow> content d' = Some c' \<Longrightarrow>
         read (watcherFires \<lparr>cachedValue = Some c, watching = False, watcher = True\<rparr> d') d'
           = (Inr c', \<lparr>cachedValue = Some c', watching = False, watcher = True\<rparr>,
              d'\<lparr>listeners := Suc (listeners d'), diskReads := Suc (diskReads d')\<rparr>)"
  using assms
  by (cases c; simp add: read_def newReader_def initWatcher_def watcherFires_def)+

text \<open>
  C7. For an empty file the cache is never hit: the second read, with no change of the
  file in between, reads the disk again and registers a second listener.
\<close>

theorem empty_file_is_read_again:
  "read newReader \<lparr>content = Some [], diskReads = 0, listeners = 0\<rparr>
     = (Inr [], \<lparr>cachedValue = Some [], watching = False, watcher = True\<rparr>,
        \<lparr>content = Some [], diskReads = 1, listeners = 1\<rparr>) \<and>
   read \<lparr>cachedValue = Some [], watching = False, watcher = True\<rparr>
        \<lparr>content = Some [], diskReads = 1, listeners = 1\<rparr>
     = (Inr [], \<lparr>cachedValue = Some [], watching = False, watcher = True\<rparr>,
        \<lparr>content = Some [], diskReads = 2, listeners = 2\<rparr>)"
  by (simp add: read_def newReader_def initWatcher_def)

section \<open>Properties of the pro session\<close>

subsection \<open>Auxiliary facts\<close>

lemma matchAllFrom_Cons:
  "matchAllFrom k (c # cs) =
     (if k = 0 then
        (case matchAt (c # cs) of
           Some (groups, n) \<Rightarrow> groups # matchAllFrom (n - 1) cs
         | None \<Rightarrow> matchAllFrom 0 cs)
      else matchAllFrom (k - 1) cs)"
  by (cases k) simp_all

lemmas pro_eval = js_def matchAll_def matchAt_def matchTail_def isDigit_def isWhiteSpace_def
  isLineTerminator_def toProgress_def parseInt10_def Let_def matchAllFrom_Cons

lemmas includes_eval = js_def str_includes_def readyMarker_def sublist_code(3)

text \<open>
  \<open>matchAt\<close> and the regular expression: a match has the shape that the expression
  describes, and where the string has that shape \<open>matchAt\<close> finds a match with the
  same first two groups.
\<close>

lemma takeWhile_all: "list_all P (takeWhile P xs)"
  by (auto simp: list_all_iff dest: set_takeWhileD)

lemma matchTail_shape:
  assumes "matchTail s = Some (d, n)"
  shows "\<exists>ws rest. s = ws @ d @ 37 # rest \<and> ws \<noteq> [] \<and> list_all isWhiteSpace ws \<and>
           d \<noteq> [] \<and> list_all isDigit d \<and> n = length ws + length d + 1"
proof -
  let ?ws = "takeWhile isWhiteSpace s" and ?r1 = "dropWhile isWhiteSpace s"
  let ?d = "takeWhile isDigit ?r1" and ?r2 = "dropWhile isDigit ?r1"
  from assms have ws: "?ws \<noteq> []" and dd: "?d \<noteq> []" and d: "d = ?d"
    and n: "n = length ?ws + length ?d + 1"
    and r2: "case ?r2 of [] \<Rightarrow> False | c # r3 \<Rightarrow> c = 37"
    by (auto simp: matchTail_def Let_def split: if_splits)
  from r2 obtain rest where rest: "?r2 = 37 # rest" by (cases ?r2) auto
  have "s = ?ws @ ?r1" by simp
  also have "?r1 = ?d @ ?r2" by simp
  finally have "s = ?ws @ ?d @ 37 # rest" using rest by simp
  moreover have "list_all isWhiteSpace ?ws" by (rule takeWhile_all)
  moreover have "list_all isDigit ?d" by (rule takeWhile_all)
  ultimately show ?thesis using ws dd d n by blast
qed

lemma lazyDots_shape:
  "lazyDots s = Some (d, n) \<Longrightarrow>
     \<exists>body ws rest. s = body @ 93 # ws @ d @ 37 # rest \<and>
        list_all (\<lambda>c. \<not> isLineTerminator c) body \<and> ws \<noteq> [] \<and> list_all isWhiteSpace ws \<and>
        d \<noteq> [] \<and> list_all isDigit d \<and> n = length body + 1 + length ws + length d + 1"
proof (induction s arbitrary: n)
  case Nil
  then show ?case by simp
next
  case (Cons c cs)
  show ?case
  proof (cases "c = 93 \<and> matchTail cs \<noteq> None")
    case True
    with Cons.prems obtain n' where t: "matchTail cs = Some (d, n')" and n: "n = Suc n'"
      by auto
    from matchTail_shape [OF t] obtain ws rest where
      "cs = ws @ d @ 37 # rest" "ws \<noteq> []" "list_all isWhiteSpace ws" "d \<noteq> []"
      "list_all isDigit d" "n' = length ws + length d + 1" by blast
    with True n have "c # cs = [] @ 93 # ws @ d @ 37 # rest \<and>
        list_all (\<lambda>c. \<not> isLineTerminator c) [] \<and> ws \<noteq> [] \<and> list_all isWhiteSpace ws \<and>
        d \<noteq> [] \<and> list_all isDigit d \<and> n = length ([]::nat list) + 1 + length ws + length d + 1"
      by simp
    then show ?thesis by blast
  next
    case False
    with Cons.prems obtain n' where nl: "\<not> isLineTerminator c"
      and l: "lazyDots cs = Some (d, n')" and n: "n = Suc n'"
      by (auto split: if_splits option.splits)
    from Cons.IH [OF l] obtain body ws rest where
      "cs = body @ 93 # ws @ d @ 37 # rest" "list_all (\<lambda>c. \<not> isLineTerminator c) body"
      "ws \<noteq> []" "list_all isWhiteSpace ws" "d \<noteq> []" "list_all isDigit d"
      "n' = length body + 1 + length ws + length d + 1" by blast
    with nl n have "c # cs = (c # body) @ 93 # ws @ d @ 37 # rest \<and>
        list_all (\<lambda>c. \<not> isLineTerminator c) (c # body) \<and> ws \<noteq> [] \<and> list_all isWhiteSpace ws \<and>
        d \<noteq> [] \<and> list_all isDigit d \<and> n = length (c # body) + 1 + length ws + length d + 1"
      by simp
    then show ?thesis by blast
  qed
qed

lemma matchAt_shape:
  assumes "matchAt s = Some ((d1, d2, d3), n)"
  shows "\<exists>ws1 body ws2 rest.
     s = d1 @ 47 # d2 @ ws1 @ 91 # body @ 93 # ws2 @ d3 @ 37 # rest \<and>
     d1 \<noteq> [] \<and> list_all isDigit d1 \<and> d2 \<noteq> [] \<and> list_all isDigit d2 \<and>
     ws1 \<noteq> [] \<and> list_all isWhiteSpace ws1 \<and>
     list_all (\<lambda>c. \<not> isLineTerminator c) body \<and>
     ws2 \<noteq> [] \<and> list_all isWhiteSpace ws2 \<and> d3 \<noteq> [] \<and> list_all isDigit d3 \<and>
     n + length rest = length s"
proof -
  let ?d1 = "takeWhile isDigit s" and ?r1 = "dropWhile isDigit s"
  from assms have d1: "?d1 \<noteq> []" by (auto simp: matchAt_def Let_def split: if_splits)
  from assms d1 obtain r2 where r1: "?r1 = 47 # r2"
    by (cases ?r1) (auto simp: matchAt_def Let_def split: if_splits)
  let ?d2 = "takeWhile isDigit r2" and ?r3 = "dropWhile isDigit r2"
  let ?ws = "takeWhile isWhiteSpace ?r3" and ?r4 = "dropWhile isWhiteSpace ?r3"
  from assms d1 r1 have d2: "?d2 \<noteq> []" and ws: "?ws \<noteq> []"
    by (auto simp: matchAt_def Let_def split: if_splits)
  from assms d1 r1 d2 ws obtain r5 where r4: "?r4 = 91 # r5"
    by (cases ?r4) (auto simp: matchAt_def Let_def split: if_splits)
  from assms d1 r1 d2 ws r4 obtain m where l: "lazyDots r5 = Some (d3, m)"
    and eqs: "d1 = ?d1" "d2 = ?d2"
    and n: "n = length ?d1 + 1 + length ?d2 + length ?ws + 1 + m"
    by (auto simp: matchAt_def Let_def split: if_splits option.splits)
  from lazyDots_shape [OF l] obtain body ws2 rest where
    r5: "r5 = body @ 93 # ws2 @ d3 @ 37 # rest"
    and props: "list_all (\<lambda>c. \<not> isLineTerminator c) body" "ws2 \<noteq> []"
      "list_all isWhiteSpace ws2" "d3 \<noteq> []" "list_all isDigit d3"
    and m: "m = length body + 1 + length ws2 + length d3 + 1" by blast
  have "s = ?d1 @ ?r1" by simp
  also have "?r1 = 47 # ?d2 @ ?r3" using r1 by simp
  also have "?r3 = ?ws @ ?r4" by simp
  finally have s: "s = ?d1 @ 47 # ?d2 @ ?ws @ 91 # body @ 93 # ws2 @ d3 @ 37 # rest"
    using r4 r5 by simp
  have cls: "list_all isDigit ?d1" "list_all isDigit ?d2" "list_all isWhiteSpace ?ws"
    by (rule takeWhile_all)+
  from arg_cong [OF s, of length]
  have "n + length rest = length s"
    by (simp add: n m)
  with s cls props d1 d2 ws eqs show ?thesis by blast
qed


lemma takeWhile_run:
  assumes "list_all P xs" and "\<not> P y"
  shows "takeWhile P (xs @ y # ys) = xs" and "dropWhile P (xs @ y # ys) = y # ys"
  using assms by (induction xs) simp_all

lemma digit_not_space: "isDigit c \<Longrightarrow> \<not> isWhiteSpace c"
  by (auto simp: isDigit_def isWhiteSpace_def isLineTerminator_def)

lemma matchTail_complete:
  assumes "ws \<noteq> []" "list_all isWhiteSpace ws" "d \<noteq> []" "list_all isDigit d"
  shows "matchTail (ws @ d @ 37 # rest) = Some (d, length ws + length d + 1)"
proof -
  from assms(3) obtain c d' where d: "d = c # d'" by (cases d) auto
  with assms(4) have "\<not> isWhiteSpace c" by (simp add: digit_not_space)
  with assms(2) have w: "takeWhile isWhiteSpace (ws @ d @ 37 # rest) = ws"
      "dropWhile isWhiteSpace (ws @ d @ 37 # rest) = d @ 37 # rest"
    using takeWhile_run [of isWhiteSpace ws c "d' @ 37 # rest"] by (simp_all add: d)
  have "\<not> isDigit 37" by (simp add: isDigit_def)
  with assms(4) have g: "takeWhile isDigit (d @ 37 # rest) = d"
      "dropWhile isDigit (d @ 37 # rest) = 37 # rest"
    using takeWhile_run [of isDigit d 37 rest] by simp_all
  show ?thesis using assms(1,3) by (simp add: matchTail_def w g)
qed

lemma lazyDots_complete:
  assumes "ws \<noteq> []" "list_all isWhiteSpace ws" "d \<noteq> []" "list_all isDigit d"
  shows "list_all (\<lambda>c. \<not> isLineTerminator c) body \<Longrightarrow>
     lazyDots (body @ 93 # ws @ d @ 37 # rest) \<noteq> None"
proof (induction body)
  case Nil
  show ?case using matchTail_complete [OF assms, of rest] by simp
next
  case (Cons c body)
  then show ?case by (auto split: option.splits)
qed

lemma matchAt_complete:
  assumes "d1 \<noteq> []" "list_all isDigit d1" "d2 \<noteq> []" "list_all isDigit d2"
    and "ws1 \<noteq> []" "list_all isWhiteSpace ws1"
    and "list_all (\<lambda>c. \<not> isLineTerminator c) body"
    and "ws2 \<noteq> []" "list_all isWhiteSpace ws2" "d3 \<noteq> []" "list_all isDigit d3"
  shows "\<exists>p n. matchAt (d1 @ 47 # d2 @ ws1 @ 91 # body @ 93 # ws2 @ d3 @ 37 # rest)
           = Some ((d1, d2, p), n)"
proof -
  let ?t5 = "body @ 93 # ws2 @ d3 @ 37 # rest"
  let ?t3 = "ws1 @ 91 # ?t5"
  let ?t2 = "d2 @ ?t3"
  have "\<not> isDigit 47" by (simp add: isDigit_def)
  with assms(2) have a: "takeWhile isDigit (d1 @ 47 # ?t2) = d1"
      "dropWhile isDigit (d1 @ 47 # ?t2) = 47 # ?t2"
    using takeWhile_run [of isDigit d1 47 ?t2] by simp_all
  from assms(5) obtain w ws' where ws1: "ws1 = w # ws'" by (cases ws1) auto
  with assms(6) have "\<not> isDigit w" using digit_not_space [of w] by auto
  with assms(4) have b: "takeWhile isDigit ?t2 = d2" "dropWhile isDigit ?t2 = ?t3"
    using takeWhile_run [of isDigit d2 w "ws' @ 91 # ?t5"] by (simp_all add: ws1)
  have "\<not> isWhiteSpace 91" by (simp add: isWhiteSpace_def isLineTerminator_def)
  with assms(6) have c: "takeWhile isWhiteSpace ?t3 = ws1" "dropWhile isWhiteSpace ?t3 = 91 # ?t5"
    using takeWhile_run [of isWhiteSpace ws1 91 ?t5] by simp_all
  from lazyDots_complete [OF assms(8-11) assms(7), of rest]
  obtain p m where l: "lazyDots ?t5 = Some (p, m)" by auto
  show ?thesis using assms(1,3,5)
    by (simp add: matchAt_def a b c l)
qed











subsection \<open>A missing config folder\<close>




subsection \<open>A progress marker ends the handler\<close>

text \<open>
  C10. With a progress callback, a chunk that contains a progress marker does not start
  the readiness check, whether or not it contains the readiness marker: no wait is
  started, and the promise and the session handles are as before.
\<close>

theorem progress_chunk_skips_readiness:
  assumes "matchAll chunk \<noteq> []"
  shows "WaitThenCheck \<notin> set (onStdoutData True chunk)
       \<and> pendingChecks (step True dir (StdoutData chunk) s) = pendingChecks s
       \<and> resolved (step True dir (StdoutData chunk) s) = resolved s
       \<and> constructed (step True dir (StdoutData chunk) s) = constructed s"
  using assms by (simp add: onStdoutData_def Let_def)

theorem progress_chunk_skips_readiness_witness:
  "matchAll (js ''1/2 [=>] 50% Open your web browser at: x'') \<noteq> [] \<and>
   str_includes (js ''1/2 [=>] 50% Open your web browser at: x'') readyMarker \<and>
   WaitThenCheck \<notin> set (onStdoutData True (js ''1/2 [=>] 50% Open your web browser at: x'')) \<and>
   pendingChecks (step True (js ''/tmp/phpstan-fixer'')
     (StdoutData (js ''1/2 [=>] 50% Open your web browser at: x'')) initialState) = 0 \<and>
   WaitThenCheck \<in> set (onStdoutData False (js ''1/2 [=>] 50% Open your web browser at: x''))"
proof -
  have m: "matchAll (js ''1/2 [=>] 50% Open your web browser at: x'') \<noteq> []"
    by (simp add: pro_eval)
  have i: "str_includes (js ''1/2 [=>] 50% Open your web browser at: x'') readyMarker"
    by (simp add: includes_eval)
  from i have f: "WaitThenCheck \<in> set (onStdoutData False (js ''1/2 [=>] 50% Open your web browser at: x''))"
    by (simp add: onStdoutData_def)
  from progress_chunk_skips_readiness [OF m, of "js ''/tmp/phpstan-fixer''" initialState] m i f
  show ?thesis by (simp add: initialState_def)
qed

subsection \<open>The progress parser\<close>

text \<open>
  C9. The chunk \<open>12/50 [====>    ] 24%\<close> is parsed to the progress record of 12, 50
  and 24; and for a chunk with one or several progress markers the progress callback
  is called once, with the last match of the chunk.
\<close>

theorem progress_parser_last_match:
  "map toProgress (matchAll (js ''12/50 [====>    ] 24%''))
     = [\<lparr>progress_done = 12, progress_total = 50, progress_percentage = 24\<rparr>]
   \<and> (\<forall>chunk dir s. matchAll chunk \<noteq> [] \<longrightarrow>
        [p. OnProgress p \<leftarrow> onStdoutData True chunk] = [toProgress (last (matchAll chunk))]
        \<and> reported (step True dir (StdoutData chunk) s)
            = reported s @ [toProgress (last (matchAll chunk))])"
proof -
  have "map toProgress (matchAll (js ''12/50 [====>    ] 24%''))
     = [\<lparr>progress_done = 12, progress_total = 50, progress_percentage = 24\<rparr>]"
    by (simp add: pro_eval)
  then show ?thesis by (simp add: onStdoutData_def Let_def)
qed

theorem progress_parser_last_match_witness:
  "map toProgress (matchAll (js ''1/10 [>   ] 10% 2/10 [=>  ] 20%''))
     = [\<lparr>progress_done = 1, progress_total = 10, progress_percentage = 10\<rparr>,
        \<lparr>progress_done = 2, progress_total = 10, progress_percentage = 20\<rparr>] \<and>
   reported (step True (js ''/tmp/phpstan-fixer'')
       (StdoutData (js ''1/10 [>   ] 10% 2/10 [=>  ] 20%'')) initialState)
     = [\<lparr>progress_done = 2, progress_total = 10, progress_percentage = 20\<rparr>]"
proof -
  have m: "map toProgress (matchAll (js ''1/10 [>   ] 10% 2/10 [=>  ] 20%''))
     = [\<lparr>progress_done = 1, progress_total = 10, progress_percentage = 10\<rparr>,
        \<lparr>progress_done = 2, progress_total = 10, progress_percentage = 20\<rparr>]"
    by (simp add: pro_eval)
  then have ne: "matchAll (js ''1/10 [>   ] 10% 2/10 [=>  ] 20%'') \<noteq> []" by auto
  have l: "toProgress (last (matchAll (js ''1/10 [>   ] 10% 2/10 [=>  ] 20%'')))
      = \<lparr>progress_done = 2, progress_total = 10, progress_percentage = 20\<rparr>"
    using m ne by (simp add: last_map [symmetric])
  from progress_parser_last_match [THEN conjunct2, rule_format, OF ne,
      of "js ''/tmp/phpstan-fixer''" initialState] m l
  show ?thesis by (simp add: initialState_def)
qed

end
